theory Spec2Isabelle
  imports Complex_Main "HOL-Library.Sublist" "HOL-Library.Log_Nat"
begin

section \<open>JavaScript values and strings\<close>

text \<open>
  The normalisers of \<^verbatim>\<open>src/normalize.js\<close> receive scraped values: strings, but also
  \<^verbatim>\<open>null\<close>, \<^verbatim>\<open>undefined\<close>, booleans and numbers. A JavaScript number is an IEEE 754
  double: \<open>Fin x\<close> is the finite double of value \<open>x\<close> (the two zeros are both
  \<open>Fin 0\<close>; they are equally falsy and print alike).

  A string is a list of characters. The case mappings, \<^verbatim>\<open>trim\<close> and the class \<^verbatim>\<open>\s\<close>
  of regular expressions are modelled on ASCII: on ASCII text they coincide with
  JavaScript's, which beyond ASCII also map letters such as U+00C0 and take U+00A0,
  U+FEFF and the Unicode space separators for white space. The classes \<^verbatim>\<open>\d\<close> and
  \<^verbatim>\<open>\w\<close> are ASCII in JavaScript too. A statement that depends on \<^verbatim>\<open>trim\<close> or on the
  case of a text it quantifies over assumes the text to be ASCII (\<open>isAscii\<close>).
\<close>

datatype jsnum = NaN | PosInf | NegInf | Fin rat

datatype jsval = Undefined | Null | Bool bool | Number jsnum | Str string

text \<open>Truthiness, as tested by \<^verbatim>\<open>if (!x)\<close> and \<^verbatim>\<open>a || b\<close>.\<close>

fun truthy :: "jsval \<Rightarrow> bool" where
  "truthy Undefined = False"
| "truthy Null = False"
| "truthy (Bool b) = b"
| "truthy (Number n) = (n \<noteq> NaN \<and> n \<noteq> Fin 0)"
| "truthy (Str s) = (s \<noteq> [])"

definition jsor :: "jsval \<Rightarrow> jsval \<Rightarrow> jsval" where
  "jsor a b = (if truthy a then a else b)"

text \<open>
  \<^verbatim>\<open>String(v)\<close>. The decimal rendering of a number (ECMAScript's Number::toString) is
  the parameter \<open>numStr\<close>: no result below depends on what it prints.
\<close>

fun toStr :: "(jsnum \<Rightarrow> string) \<Rightarrow> jsval \<Rightarrow> string" where
  "toStr numStr Undefined = ''undefined''"
| "toStr numStr Null = ''null''"
| "toStr numStr (Bool b) = (if b then ''true'' else ''false'')"
| "toStr numStr (Number n) = numStr n"
| "toStr numStr (Str s) = s"

definition lower_letters :: string where
  "lower_letters = ''abcdefghijklmnopqrstuvwxyz''"

definition upper_letters :: string where
  "upper_letters = ''ABCDEFGHIJKLMNOPQRSTUVWXYZ''"

definition toUpperChar :: "char \<Rightarrow> char" where
  "toUpperChar c = (case map_of (zip lower_letters upper_letters) c of Some u \<Rightarrow> u | None \<Rightarrow> c)"

definition toLowerChar :: "char \<Rightarrow> char" where
  "toLowerChar c = (case map_of (zip upper_letters lower_letters) c of Some l \<Rightarrow> l | None \<Rightarrow> c)"

definition toUpperCase :: "string \<Rightarrow> string" where
  "toUpperCase s = map toUpperChar s"

definition toLowerCase :: "string \<Rightarrow> string" where
  "toLowerCase s = map toLowerChar s"

definition isSpace :: "char \<Rightarrow> bool" where
  "isSpace c = (c \<in> set [CHR 0x09, CHR 0x0A, CHR 0x0B, CHR 0x0C, CHR 0x0D, CHR '' ''])"

definition isAscii :: "char \<Rightarrow> bool" where
  "isAscii c = (of_char c < (128::nat))"

definition isDigit :: "char \<Rightarrow> bool" where
  "isDigit c = (c \<in> set ''0123456789'')"

definition isWord :: "char \<Rightarrow> bool" where
  "isWord c = (c \<in> set lower_letters \<or> c \<in> set upper_letters \<or> isDigit c \<or> c = CHR ''_'')"

definition trim :: "string \<Rightarrow> string" where
  "trim s = rev (dropWhile isSpace (rev (dropWhile isSpace s)))"

text \<open>\<^verbatim>\<open>hay.includes(needle)\<close>: the needle occurs at some position of the text.\<close>

fun includesStr :: "string \<Rightarrow> string \<Rightarrow> bool" where
  "includesStr needle [] = (needle = [])"
| "includesStr needle (c # cs) = (prefix needle (c # cs) \<or> includesStr needle cs)"

text \<open>\<^verbatim>\<open>s.split(sep)\<close> for a one-character separator: never the empty list.\<close>

fun split :: "char \<Rightarrow> string \<Rightarrow> string list" where
  "split sep [] = [[]]"
| "split sep (c # cs) =
     (if c = sep then [] # split sep cs
      else (case split sep cs of [] \<Rightarrow> [[c]] | p # ps \<Rightarrow> (c # p) # ps))"

section \<open>Numbers\<close>

text \<open>
  Arithmetic on doubles: the exact result, rounded to the nearest double, ties to the
  even significand. A positive double is \<open>m * 2 ^ e\<close> with \<open>m < 2 ^ 53\<close> and
  \<open>e \<ge> -1074\<close>; a result of \<open>2 ^ 1024\<close> or more is an infinity.
\<close>

definition pow2 :: "int \<Rightarrow> rat" where
  "pow2 e = (if 0 \<le> e then 2 ^ nat e else 1 / 2 ^ nat (- e))"

text \<open>The binary exponent of a positive rational: \<open>pow2 (ilog2 x) \<le> x < pow2 (ilog2 x + 1)\<close>.\<close>

definition ilog2 :: "rat \<Rightarrow> int" where
  "ilog2 x =
     (case quotient_of x of (p, q) \<Rightarrow>
        let d = bitlen p - bitlen q in if pow2 d \<le> x then d else d - 1)"

definition roundEven :: "rat \<Rightarrow> int" where
  "roundEven x =
     (let f = \<lfloor>x\<rfloor>; r = x - of_int f
      in if r < 1 / 2 then f else if 1 / 2 < r then f + 1 else if even f then f else f + 1)"

definition toDouble :: "rat \<Rightarrow> jsnum" where
  "toDouble x =
     (if x = 0 then Fin 0
      else
        let a = \<bar>x\<bar>;
            e = max (ilog2 a - 52) (- 1074);
            r = of_int (roundEven (a / pow2 e)) * pow2 e
        in if pow2 1024 \<le> r then (if x < 0 then NegInf else PosInf)
           else Fin (if x < 0 then - r else r))"

text \<open>\<^verbatim>\<open>a * b\<close>.\<close>

fun mulN :: "jsnum \<Rightarrow> jsnum \<Rightarrow> jsnum" where
  "mulN NaN b = NaN"
| "mulN a NaN = NaN"
| "mulN (Fin a) (Fin b) = toDouble (a * b)"
| "mulN (Fin a) PosInf = (if a = 0 then NaN else if 0 < a then PosInf else NegInf)"
| "mulN (Fin a) NegInf = (if a = 0 then NaN else if 0 < a then NegInf else PosInf)"
| "mulN PosInf (Fin b) = (if b = 0 then NaN else if 0 < b then PosInf else NegInf)"
| "mulN NegInf (Fin b) = (if b = 0 then NaN else if 0 < b then NegInf else PosInf)"
| "mulN PosInf PosInf = PosInf"
| "mulN PosInf NegInf = NegInf"
| "mulN NegInf PosInf = NegInf"
| "mulN NegInf NegInf = PosInf"

text \<open>\<^verbatim>\<open>a / d\<close> for a finite divisor \<open>d > 0\<close>.\<close>

fun divBy :: "jsnum \<Rightarrow> rat \<Rightarrow> jsnum" where
  "divBy (Fin a) d = toDouble (a / d)"
| "divBy a d = a"

text \<open>\<^verbatim>\<open>Math.round(a)\<close>: the nearest integer, a tie going up.\<close>

fun roundN :: "jsnum \<Rightarrow> jsnum" where
  "roundN (Fin a) = Fin (of_int \<lfloor>a + 1 / 2\<rfloor>)"
| "roundN a = a"

text \<open>
  \<^verbatim>\<open>parseFloat\<close> on text made of digits and dots, the only text the price parser hands
  it: the longest prefix that is a decimal literal (digits, then at most one dot and
  more digits) is read and rounded to a double; without any digit the result is NaN.
\<close>

definition digitVal :: "char \<Rightarrow> nat" where
  "digitVal c = length (takeWhile (\<lambda>d. d \<noteq> c) ''0123456789'')"

definition digitsVal :: "string \<Rightarrow> nat" where
  "digitsVal ds = foldl (\<lambda>n c. 10 * n + digitVal c) 0 ds"

definition parseFloat :: "string \<Rightarrow> jsnum" where
  "parseFloat s =
     (let ip = takeWhile isDigit s;
          fp = (case dropWhile isDigit s of
                  [] \<Rightarrow> []
                | c # r \<Rightarrow> if c = CHR ''.'' then takeWhile isDigit r else [])
      in if ip = [] \<and> fp = [] then NaN
         else toDouble (of_nat (digitsVal ip) + of_nat (digitsVal fp) / 10 ^ length fp))"

section \<open>Classification of listing and property types\<close>

text \<open>\<^verbatim>\<open>normalizeListingType\<close> and \<^verbatim>\<open>normalizePropertyType\<close> of normalize.js.\<close>

definition normalizeListingType :: "(jsnum \<Rightarrow> string) \<Rightarrow> jsval \<Rightarrow> string" where
  "normalizeListingType numStr type =
     (if \<not> truthy type then ''unknown''
      else let t = toLowerCase (toStr numStr type) in
        if includesStr ''sale'' t \<or> includesStr ''buy'' t then ''sale''
        else if includesStr ''rent'' t \<or> includesStr ''let'' t then ''rent''
        else ''unknown'')"

definition normalizePropertyType :: "(jsnum \<Rightarrow> string) \<Rightarrow> jsval \<Rightarrow> string" where
  "normalizePropertyType numStr type =
     (if \<not> truthy type then ''unknown''
      else let t = toLowerCase (toStr numStr type) in
        if includesStr ''house'' t \<or> includesStr ''villa'' t \<or> includesStr ''bungalow'' t
           \<or> includesStr ''townhouse'' t then ''house''
        else if includesStr ''apartment'' t \<or> includesStr ''flat'' t \<or> includesStr ''studio'' t
           \<or> includesStr ''bedsitter'' t then ''apartment''
        else if includesStr ''land'' t \<or> includesStr ''plot'' t then ''land''
        else if includesStr ''commercial'' t \<or> includesStr ''office'' t \<or> includesStr ''shop'' t
           \<or> includesStr ''warehouse'' t then ''commercial''
        else ''other'')"

section \<open>Image lists\<close>

text \<open>
  \<^verbatim>\<open>normalizeImages\<close> takes a scalar or an array. An array is truthy even when empty.
\<close>

datatype images_input = ImgVal jsval | ImgArray "jsval list"

text \<open>
  \<^verbatim>\<open>url.replace(/-thumb\.\w+$/, '.$1')\<close>. The pattern has no capture group, so the
  replacement text \<^verbatim>\<open>$1\<close> refers to no group and is inserted as it is written.
  The match is the leftmost position from which \<^verbatim>\<open>-thumb.\<close> and then only word
  characters, at least one, run to the end of the text.
\<close>

definition thumbAt :: "string \<Rightarrow> bool" where
  "thumbAt s = (prefix ''-thumb.'' s \<and> drop 7 s \<noteq> [] \<and> list_all isWord (drop 7 s))"

fun replaceThumb :: "string \<Rightarrow> string" where
  "replaceThumb [] = []"
| "replaceThumb (c # cs) = (if thumbAt (c # cs) then ''.$1'' else c # replaceThumb cs)"

definition imageArray :: "images_input \<Rightarrow> jsval list" where
  "imageArray images = (case images of ImgArray xs \<Rightarrow> xs | ImgVal v \<Rightarrow> [v])"

text \<open>\<^verbatim>\<open>img && typeof img === 'string'\<close> keeps the non-empty strings.\<close>

fun stringsOf :: "jsval list \<Rightarrow> string list" where
  "stringsOf [] = []"
| "stringsOf (Str s # vs) = (if s \<noteq> [] then s # stringsOf vs else stringsOf vs)"
| "stringsOf (v # vs) = stringsOf vs"

definition normalizeUrl :: "string \<Rightarrow> string" where
  "normalizeUrl img =
     (let url = trim img;
          url = (if prefix ''//'' url then ''https:'' @ url else url)
      in replaceThumb url)"

definition normalizeImages :: "images_input \<Rightarrow> string list" where
  "normalizeImages images =
     (case images of
        ImgVal v \<Rightarrow>
          if \<not> truthy v then []
          else filter (prefix ''http'') (map normalizeUrl (stringsOf (imageArray images)))
      | ImgArray xs \<Rightarrow>
          filter (prefix ''http'') (map normalizeUrl (stringsOf (imageArray images))))"

section \<open>Contacts\<close>

text \<open>
  \<^verbatim>\<open>String(str).match(/(\+?254|0)?[17]\d{8}/g)\<close>. At one position the matcher tries the
  optional group first, its alternatives in the order written (with and then without
  the plus sign, then the zero), and at last the pattern without the group; behind
  each it needs a 1 or a 7 and eight more digits. The matches are collected from left
  to right, the search going on behind each match.
\<close>

definition phoneTail :: "string \<Rightarrow> bool" where
  "phoneTail t =
     (case t of
        [] \<Rightarrow> False
      | c # r \<Rightarrow> (c = CHR ''1'' \<or> c = CHR ''7'') \<and> 8 \<le> length r \<and> list_all isDigit (take 8 r))"

definition phonePrefixes :: "string list" where
  "phonePrefixes = [''+254'', ''254'', ''0'', []]"

definition phoneMatchAt :: "string \<Rightarrow> nat option" where
  "phoneMatchAt s =
     (case find (\<lambda>p. prefix p s \<and> phoneTail (drop (length p) s)) phonePrefixes of
        Some p \<Rightarrow> Some (length p + 9)
      | None \<Rightarrow> None)"

lemma phoneMatchAt_pos: "phoneMatchAt s = Some n \<Longrightarrow> 0 < n"
  by (auto simp: phoneMatchAt_def split: option.splits)

function phoneMatches :: "string \<Rightarrow> string list" where
  "phoneMatches [] = []"
| "phoneMatches (c # cs) =
     (case phoneMatchAt (c # cs) of
        Some n \<Rightarrow> take n (c # cs) # phoneMatches (drop n (c # cs))
      | None \<Rightarrow> phoneMatches cs)"
  by pat_completeness auto
termination
  by (relation "measure length") (auto dest: phoneMatchAt_pos)

text \<open>The loop body of \<^verbatim>\<open>extractPhoneNumbers\<close>: normalise one match to the +254 form.\<close>

definition normalizePhone :: "string \<Rightarrow> string" where
  "normalizePhone match =
     (let normalized =
            filter (\<lambda>c. \<not> isSpace c \<and> c \<noteq> CHR ''-'' \<and> c \<noteq> CHR ''('' \<and> c \<noteq> CHR '')'') match
      in if prefix ''0'' normalized then ''+254'' @ drop 1 normalized
         else if prefix ''254'' normalized then ''+'' @ normalized
         else if \<not> prefix ''+'' normalized then ''+254'' @ normalized
         else normalized)"

definition pushPhone :: "string list \<Rightarrow> string \<Rightarrow> string list" where
  "pushPhone phones match =
     (let normalized = normalizePhone match
      in if normalized \<in> set phones then phones else phones @ [normalized])"

definition extractPhoneNumbers :: "(jsnum \<Rightarrow> string) \<Rightarrow> jsval \<Rightarrow> string list" where
  "extractPhoneNumbers numStr str =
     (if \<not> truthy str then [] else foldl pushPhone [] (phoneMatches (toStr numStr str)))"

text \<open>
  The canonical form of a Kenyan mobile number: +254 and nine digits, the first of them
  a 1 or a 7. A number as written in a text: an optional +254, 254 or 0, then the
  same nine digits.
\<close>

definition canonicalPhone :: "string \<Rightarrow> bool" where
  "canonicalPhone p =
     (length p = 13 \<and> take 4 p = ''+254'' \<and> (p ! 4 = CHR ''1'' \<or> p ! 4 = CHR ''7'')
      \<and> list_all isDigit (drop 4 p))"

definition writtenPhone :: "string \<Rightarrow> bool" where
  "writtenPhone n =
     (\<exists>p \<in> set phonePrefixes. prefix p n \<and> length n = length p + 9
        \<and> phoneTail (drop (length p) n))"

text \<open>
  \<^verbatim>\<open>String(str).match(/[\w.-]+@[\w.-]+\.\w+/)\<close>: the first match. From a start position
  the local part is the whole run of \<^verbatim>\<open>[\w.-]\<close> characters and must end before an
  at-sign; behind it the domain run is cut at its last dot that has a word character
  behind it, and the match ends with the word characters that follow that dot.
\<close>

definition isLocal :: "char \<Rightarrow> bool" where
  "isLocal c = (isWord c \<or> c = CHR ''.'' \<or> c = CHR ''-'')"

definition domainEnd :: "string \<Rightarrow> nat option" where
  "domainEnd run =
     (case filter (\<lambda>j. run ! j = CHR ''.'' \<and> Suc j < length run \<and> isWord (run ! Suc j))
             (rev [1..<length run]) of
        [] \<Rightarrow> None
      | j # js \<Rightarrow> Some (Suc j + length (takeWhile isWord (drop (Suc j) run))))"

definition emailAt :: "string \<Rightarrow> string option" where
  "emailAt s =
     (let local = takeWhile isLocal s in
      if local = [] then None
      else (case dropWhile isLocal s of
              [] \<Rightarrow> None
            | c # t \<Rightarrow>
                if c \<noteq> CHR ''@'' then None
                else (case domainEnd (takeWhile isLocal t) of
                        None \<Rightarrow> None
                      | Some k \<Rightarrow> Some (local @ ''@'' @ take k t))))"

fun emailMatch :: "string \<Rightarrow> string option" where
  "emailMatch [] = None"
| "emailMatch (c # cs) =
     (case emailAt (c # cs) of Some m \<Rightarrow> Some m | None \<Rightarrow> emailMatch cs)"

definition extractEmail :: "(jsnum \<Rightarrow> string) \<Rightarrow> jsval \<Rightarrow> string option" where
  "extractEmail numStr str =
     (if \<not> truthy str then None
      else map_option toLowerCase (emailMatch (toStr numStr str)))"

text \<open>
  The argument of \<^verbatim>\<open>normalizeContact\<close> is a primitive value or an object, of which
  the function reads eight properties. A truthy primitive that is not a string has
  none of them.
\<close>

record raw_contact =
  raw_name :: jsval
  raw_agentName :: jsval
  raw_phone :: jsval
  raw_phoneNumber :: jsval
  raw_mobile :: jsval
  raw_whatsapp :: jsval
  raw_email :: jsval
  raw_mail :: jsval

datatype contact_input = CVal jsval | CObj raw_contact

record contact =
  name :: jsval
  phone :: "string list"
  email :: "string option"
  whatsapp :: "string option"

definition contactOfProperties :: "(jsnum \<Rightarrow> string) \<Rightarrow> raw_contact \<Rightarrow> contact" where
  "contactOfProperties numStr contactData =
     \<lparr>name = jsor (jsor (raw_name contactData) (raw_agentName contactData)) Null,
      phone = extractPhoneNumbers numStr
                (jsor (jsor (jsor (raw_phone contactData) (raw_phoneNumber contactData))
                   (raw_mobile contactData)) (Str [])),
      email = extractEmail numStr (jsor (jsor (raw_email contactData) (raw_mail contactData)) (Str [])),
      whatsapp =
        (if truthy (raw_whatsapp contactData)
         then (case extractPhoneNumbers numStr (raw_whatsapp contactData) of
                 [] \<Rightarrow> None | w # ws \<Rightarrow> Some w)
         else None)\<rparr>"

definition noProperties :: raw_contact where
  "noProperties =
     \<lparr>raw_name = Undefined, raw_agentName = Undefined, raw_phone = Undefined,
      raw_phoneNumber = Undefined, raw_mobile = Undefined, raw_whatsapp = Undefined,
      raw_email = Undefined, raw_mail = Undefined\<rparr>"

definition normalizeContact :: "(jsnum \<Rightarrow> string) \<Rightarrow> contact_input \<Rightarrow> contact" where
  "normalizeContact numStr contactData =
     (case contactData of
        CObj props \<Rightarrow> contactOfProperties numStr props
      | CVal v \<Rightarrow>
          if \<not> truthy v then \<lparr>name = Null, phone = [], email = None, whatsapp = None\<rparr>
          else (case v of
                  Str s \<Rightarrow>
                    \<lparr>name = Null, phone = extractPhoneNumbers numStr v,
                     email = extractEmail numStr v, whatsapp = None\<rparr>
                | _ \<Rightarrow> contactOfProperties numStr noProperties))"

section \<open>Locations\<close>

definition kenyaCities :: "string list" where
  "kenyaCities =
     [''nairobi'', ''mombasa'', ''kisumu'', ''nakuru'', ''eldoret'',
      ''thika'', ''malindi'', ''kitale'', ''machakos'', ''nyeri'',
      ''naivasha'', ''nanyuki'', ''kiambu'', ''kajiado'', ''kilifi'',
      ''lamu'', ''garissa'', ''kakamega'', ''bungoma'', ''embu'']"

definition regions :: "string \<Rightarrow> string option" where
  "regions = map_of
     [(''nairobi'', ''Nairobi''), (''mombasa'', ''Coast''), (''kisumu'', ''Nyanza''),
      (''nakuru'', ''Rift Valley''), (''eldoret'', ''Rift Valley''), (''thika'', ''Central''),
      (''malindi'', ''Coast''), (''kitale'', ''Rift Valley''), (''machakos'', ''Eastern''),
      (''nyeri'', ''Central''), (''naivasha'', ''Rift Valley''), (''nanyuki'', ''Central''),
      (''kiambu'', ''Central''), (''kajiado'', ''Rift Valley''), (''kilifi'', ''Coast''),
      (''lamu'', ''Coast''), (''garissa'', ''North Eastern''), (''kakamega'', ''Western''),
      (''bungoma'', ''Western''), (''embu'', ''Eastern'')]"

record location =
  area :: "string option"
  city :: "string option"
  region :: "string option"
  loc_original :: "string option"

text \<open>\<^verbatim>\<open>knownCity.charAt(0).toUpperCase() + knownCity.slice(1)\<close>.\<close>

definition capitalize :: "string \<Rightarrow> string" where
  "capitalize s = (case s of [] \<Rightarrow> [] | c # cs \<Rightarrow> toUpperChar c # cs)"

definition isDelimiter :: "char \<Rightarrow> bool" where
  "isDelimiter c = (c = CHR '','' \<or> c = CHR ''-'' \<or> c = CHR ''/'')"

text \<open>
  The text of one segment as a person writes it: not empty, no blank at either end
  and none of the three delimiters inside.
\<close>

definition segmentText :: "string \<Rightarrow> bool" where
  "segmentText s =
     (s \<noteq> [] \<and> \<not> isSpace (hd s) \<and> \<not> isSpace (last s) \<and> list_all (\<lambda>c. \<not> isDelimiter c) s)"

text \<open>
  A text read as its segments: the text \<open>p\<close> before the first delimiter and, for each
  delimiter \<open>d\<close> in turn, the text \<open>q\<close> between it and the next one. Every text is
  \<open>joinSegments p rest\<close> for exactly one such reading (\<open>undelimited p\<close>,
  \<open>delimitedSegments rest\<close>).
\<close>

definition joinSegments :: "string \<Rightarrow> (char \<times> string) list \<Rightarrow> string" where
  "joinSegments p rest = p @ concat (map (\<lambda>(d, q). d # q) rest)"

definition undelimited :: "string \<Rightarrow> bool" where
  "undelimited p = list_all (\<lambda>c. \<not> isDelimiter c) p"

definition delimitedSegments :: "(char \<times> string) list \<Rightarrow> bool" where
  "delimitedSegments rest = list_all (\<lambda>(d, q). isDelimiter d \<and> undelimited q) rest"

text \<open>The trimmed, non-empty segments of the text (\<^verbatim>\<open>parts\<close> in the source).\<close>

definition locationParts :: "string \<Rightarrow> string list" where
  "locationParts original =
     (let cleaned = trim (map (\<lambda>c. if isDelimiter c then CHR '','' else c) original)
      in filter (\<lambda>p. p \<noteq> []) (map trim (split CHR '','' cleaned)))"

text \<open>
  The two nested loops: the first part, in order, that holds a known city decides, and
  within it the first city of the list.
\<close>

fun findCity :: "string list \<Rightarrow> string option \<times> string option" where
  "findCity [] = (None, None)"
| "findCity (part # parts) =
     (case find (\<lambda>knownCity. includesStr knownCity (toLowerCase part)) kenyaCities of
        Some knownCity \<Rightarrow> (Some (capitalize knownCity), regions knownCity)
      | None \<Rightarrow> findCity parts)"

definition normalizeLocation :: "(jsnum \<Rightarrow> string) \<Rightarrow> jsval \<Rightarrow> location" where
  "normalizeLocation numStr locationStr =
     (if \<not> truthy locationStr
      then \<lparr>area = None, city = None, region = None, loc_original = None\<rparr>
      else
        let original = trim (toStr numStr locationStr);
            parts = locationParts original
        in \<lparr>area = (case parts of [] \<Rightarrow> None | p # ps \<Rightarrow> Some p),
            city = fst (findCity parts),
            region = snd (findCity parts),
            loc_original = Some original\<rparr>)"

section \<open>Prices\<close>

text \<open>
  \<^verbatim>\<open>text.replace(/KSH|KES|SH|\/=|SHILLINGS?/gi, '')\<close> and \<^verbatim>\<open>text.replace(/USD|\$/gi, ...)\<close>
  on upper-cased text: from left to right, at each position the first alternative that
  matches is removed and the scan goes on behind it; where none matches the character
  stays. The alternatives are tried in the order written, so the long forms behind
  \<^verbatim>\<open>SH\<close> are never chosen.
\<close>

function removeTokens :: "string list \<Rightarrow> string \<Rightarrow> string" where
  "removeTokens toks [] = []"
| "removeTokens toks (c # cs) =
     (case find (\<lambda>t. t \<noteq> [] \<and> prefix t (c # cs)) toks of
        Some t \<Rightarrow> removeTokens toks (drop (length t) (c # cs))
      | None \<Rightarrow> c # removeTokens toks cs)"
  by pat_completeness auto
termination
  by (relation "measure (\<lambda>(toks, s). length s)") (auto simp: find_Some_iff)

definition kesTokens :: "string list" where
  "kesTokens = [''KSH'', ''KES'', ''SH'', ''/='', ''SHILLINGS'', ''SHILLING'']"

definition usdTokens :: "string list" where
  "usdTokens = [''USD'', ''$'']"

text \<open>The replacer function of the second pattern runs, and sets the source currency, when the pattern matches anywhere.\<close>

definition hasToken :: "string list \<Rightarrow> string \<Rightarrow> bool" where
  "hasToken toks s = list_ex (\<lambda>t. includesStr t s) toks"

definition KES_TO_USD_RATE :: jsnum where
  "KES_TO_USD_RATE = toDouble (64 / 10000)"

definition USD_TO_KES_RATE :: jsnum where
  "USD_TO_KES_RATE = toDouble (15625 / 100)"

text \<open>The cleaned text and the source currency it shows.\<close>

definition cleanPrice :: "string \<Rightarrow> string \<times> string" where
  "cleanPrice original =
     (let s = removeTokens kesTokens
                (filter (\<lambda>c. c \<noteq> CHR '','' \<and> \<not> isSpace c) (toUpperCase original))
      in (trim (removeTokens usdTokens s), if hasToken usdTokens s then ''USD'' else ''KES''))"

text \<open>\<^verbatim>\<open>cleaned.match(/[\d.]+/)\<close>: the first run of digits and dots, as long as it goes.\<close>

definition isNumChar :: "char \<Rightarrow> bool" where
  "isNumChar c = (isDigit c \<or> c = CHR ''.'')"

definition numMatch :: "string \<Rightarrow> string option" where
  "numMatch cleaned =
     (case dropWhile (\<lambda>c. \<not> isNumChar c) cleaned of
        [] \<Rightarrow> None
      | c # r \<Rightarrow> Some (takeWhile isNumChar (c # r)))"

text \<open>The amount before conversion: the number read, times the K or M suffix.\<close>

definition parseAmount :: "string \<Rightarrow> jsnum option" where
  "parseAmount cleaned =
     (case numMatch cleaned of
        None \<Rightarrow> None
      | Some m \<Rightarrow>
          Some (let amount = parseFloat m
                in if CHR ''M'' \<in> set cleaned then mulN amount (Fin 1000000)
                   else if CHR ''K'' \<in> set cleaned then mulN amount (Fin 1000)
                   else amount))"

definition convertAmount :: "string \<Rightarrow> string \<Rightarrow> jsnum \<Rightarrow> jsnum" where
  "convertAmount sourceCurrency targetCurrency amount =
     (if sourceCurrency \<noteq> targetCurrency then
        (if sourceCurrency = ''KES'' \<and> targetCurrency = ''USD''
         then divBy (roundN (mulN (mulN amount KES_TO_USD_RATE) (Fin 100))) 100
         else if sourceCurrency = ''USD'' \<and> targetCurrency = ''KES''
         then roundN (mulN amount USD_TO_KES_RATE)
         else amount)
      else amount)"

record price =
  amount :: "jsnum option"
  currency :: string
  original :: "string option"

definition normalizePrice :: "(jsnum \<Rightarrow> string) \<Rightarrow> jsval \<Rightarrow> string \<Rightarrow> price" where
  "normalizePrice numStr priceStr targetCurrency =
     (if \<not> truthy priceStr
      then \<lparr>amount = None, currency = targetCurrency, original = None\<rparr>
      else
        let orig = trim (toStr numStr priceStr);
            cleaned = fst (cleanPrice orig);
            sourceCurrency = snd (cleanPrice orig)
        in \<lparr>amount = map_option (convertAmount sourceCurrency targetCurrency) (parseAmount cleaned),
            currency = targetCurrency,
            original = Some orig\<rparr>)"

text \<open>
  The shape of price text that claim C2 speaks of: an optional currency marker (one of
  the tokens above, in any letter case), digits with commas and blanks between them,
  and an optional letter K or M. \<open>denotedValue\<close> reads the digits as a decimal number;
  \<open>priceSuffix\<close>, \<open>multiplier\<close> and \<open>detectedCurrency\<close> take the upper-cased letter and
  marker.
\<close>

definition priceBody :: "string \<Rightarrow> bool" where
  "priceBody body =
     (list_all (\<lambda>c. isDigit c \<or> c = CHR '','' \<or> isSpace c) body \<and> list_ex isDigit body)"

definition denotedValue :: "string \<Rightarrow> nat" where
  "denotedValue body = digitsVal (filter isDigit body)"

definition priceSuffix :: "string \<Rightarrow> bool" where
  "priceSuffix S = (S = [] \<or> S = ''K'' \<or> S = ''M'')"

definition multiplier :: "string \<Rightarrow> nat" where
  "multiplier S = (if S = ''M'' then 1000000 else if S = ''K'' then 1000 else 1)"

definition detectedCurrency :: "string \<Rightarrow> string" where
  "detectedCurrency M = (if M \<in> set usdTokens then ''USD'' else ''KES'')"

text \<open>What the first replacement leaves of a marker: nothing, or the rest of a long form behind \<^verbatim>\<open>SH\<close>.\<close>

definition residue :: "string \<Rightarrow> bool" where
  "residue X = (X = [] \<or> X = ''ILLINGS'' \<or> X = ''ILLING'')"

section \<open>The crawl state machine\<close>

text \<open>
  \<^verbatim>\<open>createBuyRentKenyaCrawler\<close> and \<^verbatim>\<open>createJijiCrawler\<close> hold the same closure state
  (\<^verbatim>\<open>listings\<close>, \<^verbatim>\<open>listingCount\<close>) and the same request handler; they differ in the
  base URL, the source name and one extra test on an anchor's \<^verbatim>\<open>href\<close>. A \<open>site\<close>
  holds what differs. The requests handed to the engine by \<^verbatim>\<open>crawler.addRequests\<close>
  and \<^verbatim>\<open>enqueueLinks\<close> are recorded in \<open>queue\<close>, in call order.

  A page is what the handler reads from the fetched document: the \<^verbatim>\<open>href\<close> attribute
  of each anchor the site's link selector matches, in document order (\<open>None\<close> when
  the attribute is missing); the URLs the pagination selector matches; and the
  normalised listing that extraction yields on a detail page.
\<close>

datatype label = DETAIL | LIST

record request =
  url :: string
  label :: label

record 'l page =
  hrefs :: "string option list"
  next_links :: "string list"
  detail :: 'l

record site =
  base_url :: string
  source_name :: string
  href_ok :: "string \<Rightarrow> bool"

definition buyrentkenya :: site where
  "buyrentkenya =
     \<lparr>base_url = ''https://www.buyrentkenya.com'', source_name = ''buyrentkenya'',
      href_ok = (\<lambda>href. True)\<rparr>"

definition jiji :: site where
  "jiji =
     \<lparr>base_url = ''https://jiji.co.ke'', source_name = ''jiji'',
      href_ok = (\<lambda>href. includesStr ''/item/'' href)\<rparr>"

record 'l crawler =
  listings :: "'l list"
  listingCount :: nat
  queue :: "request list"

definition newCrawler :: "'l crawler" where
  "newCrawler = \<lparr>listings = [], listingCount = 0, queue = []\<rparr>"

text \<open>
  One anchor of a LIST page: the membership test is on the \<^verbatim>\<open>href\<close> as written in
  the page, the value pushed is the absolute URL.
\<close>

definition addLink :: "site \<Rightarrow> int \<Rightarrow> nat \<Rightarrow> string list \<Rightarrow> string option \<Rightarrow> string list" where
  "addLink st maxListings count propertyLinks h =
     (case h of
        None \<Rightarrow> propertyLinks
      | Some href \<Rightarrow>
          if href \<noteq> [] \<and> href_ok st href \<and> href \<notin> set propertyLinks
             \<and> int count + int (length propertyLinks) < maxListings
          then propertyLinks @ [if prefix ''http'' href then href else base_url st @ href]
          else propertyLinks)"

definition collectLinks :: "site \<Rightarrow> int \<Rightarrow> nat \<Rightarrow> string option list \<Rightarrow> string list" where
  "collectLinks st maxListings count hs = foldl (addLink st maxListings count) [] hs"

definition requestHandler ::
  "site \<Rightarrow> int \<Rightarrow> 'l crawler \<Rightarrow> request \<times> 'l page \<Rightarrow> 'l crawler" where
  "requestHandler st maxListings s rp =
     (case rp of (req, pg) \<Rightarrow>
        if label req = DETAIL then
          (if int (listingCount s) \<ge> maxListings then s
           else s\<lparr>listings := listings s @ [detail pg], listingCount := Suc (listingCount s)\<rparr>)
        else
          (let propertyLinks = collectLinks st maxListings (listingCount s) (hrefs pg);
               s1 = s\<lparr>queue := queue s @ map (\<lambda>u. \<lparr>url = u, label = DETAIL\<rparr>) propertyLinks\<rparr>
           in if int (listingCount s) + int (length propertyLinks) < maxListings
              then s1\<lparr>queue := queue s1 @ map (\<lambda>u. \<lparr>url = u, label = LIST\<rparr>) (next_links pg)\<rparr>
              else s1))"

text \<open>A crawl: the handler run on the requests the engine delivers, one after another.\<close>

definition crawl :: "site \<Rightarrow> int \<Rightarrow> (request \<times> 'l page) list \<Rightarrow> 'l crawler" where
  "crawl st maxListings rps = foldl (requestHandler st maxListings) newCrawler rps"

section \<open>The orchestrator\<close>

text \<open>
  \<^verbatim>\<open>CRAWLERS\<close> is an object literal, so \<^verbatim>\<open>CRAWLERS[key]\<close> finds its two own properties
  and, for any other key, what the literal inherits from \<^verbatim>\<open>Object.prototype\<close>. The
  key is lower-cased first; the inherited names written in lower case only are
  \<^verbatim>\<open>constructor\<close> (the function \<^verbatim>\<open>Object\<close>) and \<^verbatim>\<open>__proto__\<close> (the prototype object).
  Every other key yields \<^verbatim>\<open>undefined\<close>.
\<close>

datatype property = Own site | InheritedConstructor | InheritedProto | Absent

definition CRAWLERS :: "string \<Rightarrow> property" where
  "CRAWLERS key =
     (if key = ''buyrentkenya'' then Own buyrentkenya
      else if key = ''jiji'' then Own jiji
      else if key = ''constructor'' then InheritedConstructor
      else if key = ''__proto__'' then InheritedProto
      else Absent)"

datatype js_error = TypeError

text \<open>
  The loop of \<^verbatim>\<open>main.js\<close> over the configured sources. Each source name comes with
  the requests the engine would deliver to a crawler started for it. An absent
  property is skipped with a warning. \<^verbatim>\<open>Object(options)\<close> returns the options object,
  which has no \<^verbatim>\<open>buildSearchUrl\<close>, and the prototype object is not callable: both
  throw a TypeError, which leaves the loop.
\<close>

fun processSources ::
  "int \<Rightarrow> nat \<Rightarrow> (string \<times> (request \<times> 'l page) list) list \<Rightarrow> 'l list \<Rightarrow> js_error + 'l list" where
  "processSources maxListings n [] allListings = Inr allListings"
| "processSources maxListings n ((source, rps) # rest) allListings =
     (case CRAWLERS (toLowerCase source) of
        Absent \<Rightarrow> processSources maxListings n rest allListings
      | Own st \<Rightarrow>
          processSources maxListings n rest
            (allListings @ listings (crawl st \<lceil>of_int maxListings / (of_nat n :: rat)\<rceil> rps))
      | InheritedConstructor \<Rightarrow> Inl TypeError
      | InheritedProto \<Rightarrow> Inl TypeError)"

record 'l run_output =
  success :: bool
  totalListings :: "nat option"
  dataset :: "'l list"

definition main :: "int \<Rightarrow> (string \<times> (request \<times> 'l page) list) list \<Rightarrow> 'l run_output" where
  "main maxListings sources =
     (case processSources maxListings (length sources) sources [] of
        Inr allListings \<Rightarrow>
          \<lparr>success = True, totalListings = Some (length allListings), dataset = allListings\<rparr>
      | Inl e \<Rightarrow> \<lparr>success = False, totalListings = None, dataset = []\<rparr>)"

section \<open>Properties of the classification functions\<close>

text \<open>
  Claim C8. The classification functions are total: for every input value, null,
  undefined and arbitrary strings included, the listing type is one of sale, rent,
  unknown and the property type is one of house, apartment, land, commercial, other,
  unknown. A falsy input (null, undefined, the empty string) gives unknown, and a
  truthy input whose lower-cased text holds none of the property keywords gives other.
\<close>

theorem classification_total:
  "normalizeListingType numStr v \<in> {''sale'', ''rent'', ''unknown''}
   \<and> normalizePropertyType numStr v
       \<in> {''house'', ''apartment'', ''land'', ''commercial'', ''other'', ''unknown''}
   \<and> (\<not> truthy v \<longrightarrow>
         normalizeListingType numStr v = ''unknown'' \<and> normalizePropertyType numStr v = ''unknown'')
   \<and> (truthy v \<and>
        (\<forall>k \<in> set [''house'', ''villa'', ''bungalow'', ''townhouse'', ''apartment'', ''flat'',
                     ''studio'', ''bedsitter'', ''land'', ''plot'', ''commercial'', ''office'',
                     ''shop'', ''warehouse''].
           \<not> includesStr k (toLowerCase (toStr numStr v)))
        \<longrightarrow> normalizePropertyType numStr v = ''other'')"
  by (simp add: normalizeListingType_def normalizePropertyType_def Let_def)

theorem classification_total_witness:
  "normalizeListingType (\<lambda>n. []) Null = ''unknown''
   \<and> normalizePropertyType (\<lambda>n. []) Undefined = ''unknown''
   \<and> normalizePropertyType (\<lambda>n. []) (Str ''Godown'') = ''other''
   \<and> normalizePropertyType (\<lambda>n. []) (Str ''Studio Apartment'')
       \<in> {''house'', ''apartment'', ''land'', ''commercial'', ''other'', ''unknown''}"
  using classification_total [of "\<lambda>n. []" Null] classification_total [of "\<lambda>n. []" Undefined]
    classification_total [of "\<lambda>n. []" "Str ''Godown''"]
    classification_total [of "\<lambda>n. []" "Str ''Studio Apartment''"]
  by (simp add: toLowerCase_def toLowerChar_def upper_letters_def lower_letters_def)

section \<open>Properties of the image list\<close>

text \<open>
  Claim C6 says that a URL ending in a thumbnail suffix, a hyphen, the word thumb, a
  dot and an extension, comes out with that suffix rewritten to the dot and the
  extension. The code does not do so: the replacement text names a capture group the
  pattern does not have, so the suffix becomes a dot, a dollar sign and the digit 1.
  The theorem evaluates \<open>normalizeImages\<close> on such a URL, given as a scalar and inside
  an array.
\<close>

theorem normalizeImages_thumb_suffix:
  "normalizeImages (ImgVal (Str ''https://example.com/img-thumb.jpg''))
     = [''https://example.com/img.$1'']
   \<and> normalizeImages (ImgArray [Str ''//cdn.example.com/a-thumb.png''])
     = [''https://cdn.example.com/a.$1'']"
  by (simp add: normalizeImages_def imageArray_def normalizeUrl_def trim_def isSpace_def
      thumbAt_def isWord_def isDigit_def lower_letters_def upper_letters_def)

section \<open>Properties of the contact normaliser\<close>

lemma phoneTail_take: "phoneTail t \<Longrightarrow> phoneTail (take 9 t)"
  by (cases t) (auto simp: phoneTail_def min_def)

lemma phoneTail_digits: "phoneTail t \<Longrightarrow> list_all isDigit (take 9 t) \<and> 9 \<le> length t"
  by (cases t) (auto simp: phoneTail_def isDigit_def)

lemma phoneMatchAt_written: "phoneMatchAt s = Some n \<Longrightarrow> writtenPhone (take n s)"
proof -
  assume a: "phoneMatchAt s = Some n"
  then obtain p where f: "find (\<lambda>p. prefix p s \<and> phoneTail (drop (length p) s)) phonePrefixes = Some p"
    and n: "n = length p + 9"
    by (auto simp: phoneMatchAt_def split: option.splits)
  from f have p: "p \<in> set phonePrefixes" "prefix p s" "phoneTail (drop (length p) s)"
    by (auto simp: find_Some_iff in_set_conv_nth)
  from p(2) obtain t where s: "s = p @ t" by (auto simp: prefix_def)
  with p(3) have t: "phoneTail t" by simp
  have "take n s = p @ take 9 t" using s n by simp
  moreover have "length (take 9 t) = 9" using phoneTail_digits[OF t] by simp
  ultimately show ?thesis
    unfolding writtenPhone_def using p(1) phoneTail_take[OF t]
    by (intro bexI[of _ p]) auto
qed

lemma phoneMatches_written: "m \<in> set (phoneMatches s) \<Longrightarrow> writtenPhone m"
proof (induction s rule: phoneMatches.induct)
  case 1
  then show ?case by simp
next
  case (2 c cs)
  then show ?case
    by (cases "phoneMatchAt (c # cs)") (auto dest: phoneMatchAt_written simp del: take_Suc_Cons drop_Suc_Cons)
qed

lemma digit_not_sep: "isDigit c \<Longrightarrow> \<not> isSpace c \<and> c \<noteq> CHR ''-'' \<and> c \<noteq> CHR ''('' \<and> c \<noteq> CHR '')''"
  by (auto simp: isDigit_def isSpace_def)

lemma filter_digits_id:
  "list_all isDigit t \<Longrightarrow>
   filter (\<lambda>c. \<not> isSpace c \<and> c \<noteq> CHR ''-'' \<and> c \<noteq> CHR ''('' \<and> c \<noteq> CHR '')'') t = t"
  by (induction t) (auto dest: digit_not_sep)

lemma normalizePhone_written:
  assumes "writtenPhone m"
  shows "canonicalPhone (normalizePhone m)"
proof -
  from assms obtain p where p: "p \<in> set phonePrefixes" "prefix p m" "length m = length p + 9"
     "phoneTail (drop (length p) m)" by (auto simp: writtenPhone_def)
  from p(2) obtain t where m: "m = p @ t" by (auto simp: prefix_def)
  with p have t: "phoneTail t" "length t = 9" by auto
  from t obtain c r where tc: "t = c # r" "c = CHR ''1'' \<or> c = CHR ''7''" "length r = 8" "list_all isDigit r"
    by (cases t) (auto simp: phoneTail_def)
  have dt: "list_all isDigit t" using tc by (auto simp: isDigit_def)
  have ft: "filter (\<lambda>c. \<not> isSpace c \<and> c \<noteq> CHR ''-'' \<and> c \<noteq> CHR ''('' \<and> c \<noteq> CHR '')'') t = t"
    by (rule filter_digits_id[OF dt])
  from p(1) consider "p = ''+254''" | "p = ''254''" | "p = ''0''" | "p = []"
    by (auto simp: phonePrefixes_def)
  then show ?thesis
  proof cases
    case 1 then show ?thesis using tc ft dt
      by (simp add: m normalizePhone_def canonicalPhone_def isSpace_def isDigit_def)
  next
    case 2 then show ?thesis using tc ft dt
      by (simp add: m normalizePhone_def canonicalPhone_def isSpace_def isDigit_def)
  next
    case 3 then show ?thesis using tc ft dt
      by (simp add: m normalizePhone_def canonicalPhone_def isSpace_def isDigit_def)
  next
    case 4 then show ?thesis using tc ft dt
      by (auto simp add: m normalizePhone_def canonicalPhone_def isSpace_def isDigit_def)
  qed
qed

lemma set_foldl_pushPhone:
  "set (foldl pushPhone acc ms) = set acc \<union> normalizePhone ` set ms"
  by (induction ms arbitrary: acc) (auto simp: pushPhone_def Let_def)

lemma distinct_foldl_pushPhone:
  "distinct acc \<Longrightarrow> distinct (foldl pushPhone acc ms)"
  by (induction ms arbitrary: acc) (auto simp: pushPhone_def Let_def)

lemma remdups_append_mem: "x \<in> set zs \<Longrightarrow> remdups (ys @ x # zs) = remdups (ys @ zs)"
  by (induction ys) auto

lemma foldl_pushPhone_first_seen:
  "distinct acc \<Longrightarrow>
   foldl pushPhone acc ms = rev (remdups (rev (acc @ map normalizePhone ms)))"
proof (induction ms arbitrary: acc)
  case Nil
  then show ?case by (simp add: distinct_remdups_id)
next
  case (Cons m ms)
  show ?case
  proof (cases "normalizePhone m \<in> set acc")
    case True
    then have "foldl pushPhone acc (m # ms) = foldl pushPhone acc ms"
      by (simp add: pushPhone_def)
    also have "\<dots> = rev (remdups (rev (acc @ map normalizePhone ms)))"
      using Cons by simp
    also have "\<dots> = rev (remdups (rev (acc @ map normalizePhone (m # ms))))"
      using True remdups_append_mem[of "normalizePhone m" "rev acc" "rev (map normalizePhone ms)"]
      by simp
    finally show ?thesis .
  next
    case False
    then have "foldl pushPhone acc (m # ms) = foldl pushPhone (acc @ [normalizePhone m]) ms"
      by (simp add: pushPhone_def)
    also have "\<dots> = rev (remdups (rev ((acc @ [normalizePhone m]) @ map normalizePhone ms)))"
      using Cons.IH[of "acc @ [normalizePhone m]"] Cons.prems False by simp
    finally show ?thesis by simp
  qed
qed

lemma extractPhoneNumbers_canonical:
  "p \<in> set (extractPhoneNumbers numStr v) \<Longrightarrow> canonicalPhone p"
  by (auto simp: extractPhoneNumbers_def set_foldl_pushPhone split: if_splits
      dest!: phoneMatches_written normalizePhone_written)

lemma extractPhoneNumbers_distinct: "distinct (extractPhoneNumbers numStr v)"
  by (simp add: extractPhoneNumbers_def distinct_foldl_pushPhone)

lemma phoneMatchAt_skip:
  "\<not> isDigit c \<Longrightarrow> c \<noteq> CHR ''+'' \<Longrightarrow> phoneMatchAt (c # s) = None"
  by (auto simp: phoneMatchAt_def phonePrefixes_def phoneTail_def isDigit_def)

lemma phoneMatches_skip:
  "\<forall>c \<in> set pre. \<not> isDigit c \<and> c \<noteq> CHR ''+'' \<Longrightarrow> phoneMatches (pre @ s) = phoneMatches s"
  by (induction pre) (auto simp: phoneMatchAt_skip)

lemma phoneTail_append: "phoneTail t \<Longrightarrow> phoneTail (t @ s)"
  by (cases t) (auto simp: phoneTail_def)

lemma phoneMatchAt_written_append:
  assumes "writtenPhone n"
  shows "phoneMatchAt (n @ s) = Some (length n)"
proof -
  from assms obtain p where p: "p \<in> set phonePrefixes" "prefix p n" "length n = length p + 9"
     "phoneTail (drop (length p) n)" by (auto simp: writtenPhone_def)
  from p(2) obtain t where n: "n = p @ t" by (auto simp: prefix_def)
  with p have t: "phoneTail t" "length t = 9" by auto
  from t obtain c r where tc: "t = c # r" "c = CHR ''1'' \<or> c = CHR ''7''" "length r = 8" "list_all isDigit r"
    by (cases t) (auto simp: phoneTail_def)
  from p(1) consider "p = ''+254''" | "p = ''254''" | "p = ''0''" | "p = []"
    by (auto simp: phonePrefixes_def)
  then show ?thesis
    using tc by cases (auto simp: n phoneMatchAt_def phonePrefixes_def phoneTail_def)
qed

lemma phoneMatches_written_append:
  assumes "writtenPhone n"
  shows "phoneMatches (n @ s) = n # phoneMatches s"
proof -
  from assms have "n \<noteq> []" by (auto simp: writtenPhone_def)
  then obtain c cs where n: "n = c # cs" by (cases n) auto
  have "phoneMatchAt ((c # cs) @ s) = Some (length (c # cs))"
    using phoneMatchAt_written_append[OF assms, of s] n by simp
  then show ?thesis unfolding n by simp
qed

lemma phoneMatches_two:
  assumes "writtenPhone n1" "writtenPhone n2"
    and "\<forall>c \<in> set (pre @ sep @ post). \<not> isDigit c \<and> c \<noteq> CHR ''+''"
  shows "phoneMatches (pre @ n1 @ sep @ n2 @ post) = [n1, n2]"
proof -
  have "phoneMatches post = phoneMatches (post @ [])" by simp
  also have "\<dots> = []" using assms(3) by (subst phoneMatches_skip) auto
  finally have "phoneMatches post = []" .
  then show ?thesis
    using assms by (simp add: phoneMatches_skip phoneMatches_written_append)
qed

lemma extractPhoneNumbers_first_seen:
  "extractPhoneNumbers numStr v
     = (if truthy v then rev (remdups (rev (map normalizePhone (phoneMatches (toStr numStr v)))))
        else [])"
  using foldl_pushPhone_first_seen[of "[]" "phoneMatches (toStr numStr v)"]
  by (simp add: extractPhoneNumbers_def)

lemma extractPhoneNumbers_or_empty:
  "extractPhoneNumbers numStr (jsor a (Str []))
     = rev (remdups (rev (map normalizePhone (phoneMatches (toStr numStr (jsor a (Str [])))))))"
  by (cases "truthy a") (simp_all add: extractPhoneNumbers_first_seen jsor_def)

lemma normalizeContact_phone_object:
  "phone (normalizeContact numStr (CObj props))
     = rev (remdups (rev (map normalizePhone (phoneMatches (toStr numStr
         (jsor (jsor (jsor (raw_phone props) (raw_phoneNumber props)) (raw_mobile props))
            (Str [])))))))"
  by (simp add: normalizeContact_def contactOfProperties_def extractPhoneNumbers_or_empty)

lemma normalizeContact_phone_string:
  "phone (normalizeContact numStr (CVal (Str s)))
     = rev (remdups (rev (map normalizePhone (phoneMatches s))))"
  by (simp add: normalizeContact_def extractPhoneNumbers_first_seen)

lemma normalizeContact_phone_other:
  assumes "\<forall>t. v \<noteq> Str t"
  shows "phone (normalizeContact numStr (CVal v)) = []"
proof (cases "truthy v")
  case False
  then show ?thesis by (simp add: normalizeContact_def)
next
  case True
  have e: "phone (contactOfProperties numStr noProperties) = []"
    by (simp add: contactOfProperties_def noProperties_def jsor_def extractPhoneNumbers_def)
  from True assms show ?thesis
    by (cases v) (simp_all add: normalizeContact_def e)
qed

lemma normalizeContact_phone_extract:
  "\<exists>v. phone (normalizeContact numStr contactData) = extractPhoneNumbers numStr v"
proof (cases contactData)
  case (CVal v)
  show ?thesis
  proof (cases "\<exists>t. v = Str t")
    case True
    then obtain t where t: "v = Str t" by blast
    have "phone (normalizeContact numStr (CVal (Str t))) = extractPhoneNumbers numStr (Str t)"
      by (simp add: normalizeContact_def extractPhoneNumbers_def)
    then show ?thesis unfolding CVal t by (rule exI)
  next
    case False
    then have "phone (normalizeContact numStr (CVal v)) = extractPhoneNumbers numStr Null"
      using normalizeContact_phone_other[of v numStr] by (simp add: extractPhoneNumbers_def)
    then show ?thesis unfolding CVal by (rule exI)
  qed
next
  case (CObj props)
  have "phone (normalizeContact numStr (CObj props)) = extractPhoneNumbers numStr
      (jsor (jsor (jsor (raw_phone props) (raw_phoneNumber props)) (raw_mobile props)) (Str []))"
    by (simp add: normalizeContact_def contactOfProperties_def)
  then show ?thesis unfolding CObj by (rule exI)
qed

lemma first_seen_two:
  assumes "writtenPhone x" "writtenPhone y" "normalizePhone x \<noteq> normalizePhone y"
    and "\<forall>c \<in> set (pre @ sep @ post). \<not> isDigit c \<and> c \<noteq> CHR ''+''"
  shows "rev (remdups (rev (map normalizePhone (phoneMatches (pre @ x @ sep @ y @ post)))))
     = [normalizePhone x, normalizePhone y]"
proof -
  have "phoneMatches (pre @ x @ sep @ y @ post) = [x, y]"
    by (rule phoneMatches_two[OF assms(1,2,4)])
  moreover from assms(3) have "normalizePhone y \<noteq> normalizePhone x" by (rule not_sym)
  ultimately show ?thesis by simp
qed

lemma phone_example:
  assumes "phoneMatches t = [t]" "normalizePhone t = r"
  shows "phone (normalizeContact numStr (CObj (noProperties\<lparr>raw_phone := Str t\<rparr>))) = [r]"
proof (cases "t = []")
  case True
  with assms(1) show ?thesis by simp
next
  case False
  then have "jsor (jsor (jsor (Str t) Undefined) Undefined) (Str []) = Str t"
    by (simp add: jsor_def)
  then show ?thesis using assms
    by (simp add: normalizeContact_phone_object noProperties_def)
qed

text \<open>
  Claim C5. For every input of \<open>normalizeContact\<close> (a primitive value or an object), every
  entry of the phone sequence has the canonical form, +254 and nine digits of which
  the first is 1 or 7, and no entry occurs twice. The sequence is the normalised
  matches in the order of their first occurrence: for a string the matches of the
  string itself, for an object the matches of the text of the first truthy one of its
  properties \<^verbatim>\<open>phone\<close>, \<^verbatim>\<open>phoneNumber\<close> and \<^verbatim>\<open>mobile\<close> (of the empty text if there is
  none), and the empty sequence for every primitive value that is not a string. The
  numbers 0722123456, +254722123456 and 254722123456, given as the phone property of
  an object, each yield the single entry +254722123456. A text that holds two written
  numbers with different normal forms, and around them no digit and no plus sign,
  yields the two normal forms in the order of the text, both when it is the input
  itself and when it is the phone property of an object.
\<close>

theorem contact_phones:
  "(\<forall>p \<in> set (phone (normalizeContact numStr contactData)). canonicalPhone p)
   \<and> distinct (phone (normalizeContact numStr contactData))
   \<and> phone (normalizeContact numStr (CVal (Str s)))
       = rev (remdups (rev (map normalizePhone (phoneMatches s))))
   \<and> phone (normalizeContact numStr (CObj props))
       = rev (remdups (rev (map normalizePhone (phoneMatches (toStr numStr
           (jsor (jsor (jsor (raw_phone props) (raw_phoneNumber props)) (raw_mobile props))
              (Str [])))))))
   \<and> ((\<forall>t. v \<noteq> Str t) \<longrightarrow> phone (normalizeContact numStr (CVal v)) = [])
   \<and> phone (normalizeContact numStr (CObj (noProperties\<lparr>raw_phone := Str ''0722123456''\<rparr>)))
       = [''+254722123456'']
   \<and> phone (normalizeContact numStr (CObj (noProperties\<lparr>raw_phone := Str ''+254722123456''\<rparr>)))
       = [''+254722123456'']
   \<and> phone (normalizeContact numStr (CObj (noProperties\<lparr>raw_phone := Str ''254722123456''\<rparr>)))
       = [''+254722123456'']
   \<and> (writtenPhone x \<and> writtenPhone y \<and> normalizePhone x \<noteq> normalizePhone y
        \<and> (\<forall>c \<in> set (pre @ sep @ post). \<not> isDigit c \<and> c \<noteq> CHR ''+'')
      \<longrightarrow> phone (normalizeContact numStr (CVal (Str (pre @ x @ sep @ y @ post))))
            = [normalizePhone x, normalizePhone y]
        \<and> phone (normalizeContact numStr
              (CObj (props\<lparr>raw_phone := Str (pre @ x @ sep @ y @ post)\<rparr>)))
            = [normalizePhone x, normalizePhone y])"
proof -
  obtain u where u: "phone (normalizeContact numStr contactData) = extractPhoneNumbers numStr u"
    using normalizeContact_phone_extract[of numStr contactData] by blast
  have canon: "\<forall>p \<in> set (phone (normalizeContact numStr contactData)). canonicalPhone p"
    unfolding u by (auto dest: extractPhoneNumbers_canonical)
  have dist: "distinct (phone (normalizeContact numStr contactData))"
    unfolding u by (rule extractPhoneNumbers_distinct)
  have oth: "(\<forall>t. v \<noteq> Str t) \<longrightarrow> phone (normalizeContact numStr (CVal v)) = []"
    by (rule impI) (rule normalizeContact_phone_other)
  have ex1: "phone (normalizeContact numStr (CObj (noProperties\<lparr>raw_phone := Str ''0722123456''\<rparr>)))
       = [''+254722123456'']"
    by (rule phone_example)
      (simp_all add: phoneMatchAt_def phonePrefixes_def phoneTail_def isDigit_def
        normalizePhone_def isSpace_def)
  have ex2: "phone (normalizeContact numStr (CObj (noProperties\<lparr>raw_phone := Str ''+254722123456''\<rparr>)))
       = [''+254722123456'']"
    by (rule phone_example)
      (simp_all add: phoneMatchAt_def phonePrefixes_def phoneTail_def isDigit_def
        normalizePhone_def isSpace_def)
  have ex3: "phone (normalizeContact numStr (CObj (noProperties\<lparr>raw_phone := Str ''254722123456''\<rparr>)))
       = [''+254722123456'']"
    by (rule phone_example)
      (simp_all add: phoneMatchAt_def phonePrefixes_def phoneTail_def isDigit_def
        normalizePhone_def isSpace_def)
  have two: "writtenPhone x \<and> writtenPhone y \<and> normalizePhone x \<noteq> normalizePhone y
        \<and> (\<forall>c \<in> set (pre @ sep @ post). \<not> isDigit c \<and> c \<noteq> CHR ''+'')
      \<longrightarrow> phone (normalizeContact numStr (CVal (Str (pre @ x @ sep @ y @ post))))
            = [normalizePhone x, normalizePhone y]
        \<and> phone (normalizeContact numStr
              (CObj (props\<lparr>raw_phone := Str (pre @ x @ sep @ y @ post)\<rparr>)))
            = [normalizePhone x, normalizePhone y]"
  proof (intro impI, elim conjE)
    assume w1: "writtenPhone x" and w2: "writtenPhone y"
      and ne: "normalizePhone x \<noteq> normalizePhone y"
      and sp: "\<forall>c \<in> set (pre @ sep @ post). \<not> isDigit c \<and> c \<noteq> CHR ''+''"
    note f = first_seen_two[OF w1 w2 ne sp]
    have "x \<noteq> []" using w1 by (auto simp: writtenPhone_def)
    then have j: "jsor (jsor (jsor (Str (pre @ x @ sep @ y @ post)) a) b) (Str [])
        = Str (pre @ x @ sep @ y @ post)" for a b
      by (simp add: jsor_def)
    show "phone (normalizeContact numStr (CVal (Str (pre @ x @ sep @ y @ post))))
            = [normalizePhone x, normalizePhone y]
        \<and> phone (normalizeContact numStr
              (CObj (props\<lparr>raw_phone := Str (pre @ x @ sep @ y @ post)\<rparr>)))
            = [normalizePhone x, normalizePhone y]"
      unfolding normalizeContact_phone_string normalizeContact_phone_object
      using f by (simp add: j)
  qed
  show ?thesis
    by (intro conjI canon dist normalizeContact_phone_string normalizeContact_phone_object
        oth ex1 ex2 ex3 two)
qed


theorem contact_phones_witness:
  "phone (normalizeContact (\<lambda>n. [])
       (CObj (noProperties\<lparr>raw_phone := Str ''0722123456, 0733987654''\<rparr>)))
     = [''+254722123456'', ''+254733987654'']
   \<and> phone (normalizeContact (\<lambda>n. []) (CVal (Str ''0722123456, 0733987654'')))
     = [''+254722123456'', ''+254733987654'']
   \<and> phone (normalizeContact (\<lambda>n. []) (CVal Null)) = []
   \<and> canonicalPhone ''+254722123456'' \<and> canonicalPhone ''+254733987654''"
proof -
  have w1: "writtenPhone ''0722123456''" and w2: "writtenPhone ''0733987654''"
    by (simp_all add: writtenPhone_def phonePrefixes_def phoneTail_def isDigit_def)
  have n1: "normalizePhone ''0722123456'' = ''+254722123456''"
    and n2: "normalizePhone ''0733987654'' = ''+254733987654''"
    by (simp_all add: normalizePhone_def isSpace_def)
  have ne: "normalizePhone ''0722123456'' \<noteq> normalizePhone ''0733987654''"
    by (simp add: n1 n2)
  have sp: "\<forall>c \<in> set ([] @ '', '' @ []). \<not> isDigit c \<and> c \<noteq> CHR ''+''"
    by (simp add: isDigit_def)
  have nn: "\<forall>t. Null \<noteq> Str t"
    by simp
  note t = contact_phones [of "\<lambda>n. []"
        "CObj (noProperties\<lparr>raw_phone := Str ''0722123456, 0733987654''\<rparr>)" "[]"
        noProperties Null "''0722123456''" "''0733987654''" "[]" "'', ''" "[]"]
  from t have canon: "\<forall>p \<in> set (phone (normalizeContact (\<lambda>n. [])
        (CObj (noProperties\<lparr>raw_phone := Str ''0722123456, 0733987654''\<rparr>)))). canonicalPhone p"
    by (rule conjunct1)
  from t have "(\<forall>t. Null \<noteq> Str t) \<longrightarrow> phone (normalizeContact (\<lambda>n. []) (CVal Null)) = []"
    by (elim conjE)
  then have nul: "phone (normalizeContact (\<lambda>n. []) (CVal Null)) = []"
    using nn by (rule mp)
  from t have "writtenPhone ''0722123456'' \<and> writtenPhone ''0733987654''
        \<and> normalizePhone ''0722123456'' \<noteq> normalizePhone ''0733987654''
        \<and> (\<forall>c \<in> set ([] @ '', '' @ []). \<not> isDigit c \<and> c \<noteq> CHR ''+'')
      \<longrightarrow> phone (normalizeContact (\<lambda>n. [])
            (CVal (Str ([] @ ''0722123456'' @ '', '' @ ''0733987654'' @ []))))
          = [normalizePhone ''0722123456'', normalizePhone ''0733987654'']
        \<and> phone (normalizeContact (\<lambda>n. [])
            (CObj (noProperties\<lparr>raw_phone :=
               Str ([] @ ''0722123456'' @ '', '' @ ''0733987654'' @ [])\<rparr>)))
          = [normalizePhone ''0722123456'', normalizePhone ''0733987654'']"
    by (elim conjE)
  then have "phone (normalizeContact (\<lambda>n. [])
            (CVal (Str ([] @ ''0722123456'' @ '', '' @ ''0733987654'' @ []))))
          = [normalizePhone ''0722123456'', normalizePhone ''0733987654'']
        \<and> phone (normalizeContact (\<lambda>n. [])
            (CObj (noProperties\<lparr>raw_phone :=
               Str ([] @ ''0722123456'' @ '', '' @ ''0733987654'' @ [])\<rparr>)))
          = [normalizePhone ''0722123456'', normalizePhone ''0733987654'']"
    using w1 w2 ne sp by (elim mp) (intro conjI)
  then have ps: "phone (normalizeContact (\<lambda>n. []) (CVal (Str ''0722123456, 0733987654'')))
       = [''+254722123456'', ''+254733987654'']"
    and po: "phone (normalizeContact (\<lambda>n. [])
       (CObj (noProperties\<lparr>raw_phone := Str ''0722123456, 0733987654''\<rparr>)))
       = [''+254722123456'', ''+254733987654'']"
    by (simp_all add: n1 n2)
  from canon have "canonicalPhone ''+254722123456'' \<and> canonicalPhone ''+254733987654''"
    unfolding po by simp
  with ps po nul show ?thesis by (intro conjI) simp_all
qed

section \<open>Properties of the location resolver\<close>

lemma includesStr_sublist: "includesStr n h \<longleftrightarrow> sublist n h"
  by (induction h) (auto simp: sublist_Cons_right)

lemma sublist_trim: "sublist (trim s) s"
proof -
  have "suffix (dropWhile isSpace s) s" by (rule suffix_dropWhile)
  moreover have "prefix (rev (dropWhile isSpace (rev t))) t" for t
  proof -
    have "t = rev (takeWhile isSpace (rev t) @ dropWhile isSpace (rev t))" by simp
    then have "t = rev (dropWhile isSpace (rev t)) @ rev (takeWhile isSpace (rev t))"
      by (simp only: rev_append)
    then show ?thesis by (metis prefixI)
  qed
  ultimately show ?thesis
    unfolding trim_def
    by (meson prefix_imp_sublist sublist_order.order_trans suffix_imp_sublist)
qed

lemma split_nonempty: "split sep t \<noteq> []"
  by (induction t) (auto split: list.splits)

lemma split_parts: "p \<in> set (split sep t) \<Longrightarrow> sublist p t \<and> sep \<notin> set p"
proof (induction t arbitrary: p)
  case Nil
  then show ?case by simp
next
  case (Cons c t)
  show ?case
  proof (cases "c = sep")
    case True
    with Cons.prems have "p = [] \<or> p \<in> set (split sep t)" by auto
    then show ?thesis using Cons.IH by (auto simp: sublist_Cons_right)
  next
    case False
    obtain q qs where q: "split sep t = q # qs" using split_nonempty[of sep t] by (cases "split sep t") auto
    with False Cons.prems have "p = c # q \<or> p \<in> set qs" by auto
    then show ?thesis
    proof
      assume p: "p = c # q"
      have "sublist q t \<and> sep \<notin> set q" using Cons.IH[of q] q by simp
      moreover have "prefix q t" using q
      proof (induction t arbitrary: q qs)
        case Nil then show ?case by simp
      next
        case (Cons d t)
        then show ?case by (auto split: if_splits list.splits)
      qed
      ultimately show ?thesis using p False by (auto simp: sublist_Cons_right)
    next
      assume "p \<in> set qs"
      then have "p \<in> set (split sep t)" using q by simp
      then show ?thesis using Cons.IH by (auto simp: sublist_Cons_right)
    qed
  qed
qed

lemma sublist_map_ex: "sublist p (map f t) \<Longrightarrow> \<exists>q. sublist q t \<and> p = map f q"
proof -
  assume "sublist p (map f t)"
  then obtain ps ss where "map f t = ps @ p @ ss" by (auto simp: sublist_def)
  then obtain t1 r where r: "t = t1 @ r" "p @ ss = map f r"
    by (auto simp: map_eq_append_conv)
  then obtain t2 t3 where "r = t2 @ t3" "p = map f t2"
    by (auto simp: append_eq_map_conv)
  with r show ?thesis unfolding sublist_def by blast
qed

lemma sublist_map_mono: "sublist xs ys \<Longrightarrow> sublist (map f xs) (map f ys)"
proof -
  assume "sublist xs ys"
  then obtain ps ss where "ys = ps @ xs @ ss" by (auto simp: sublist_def)
  then have "map f ys = map f ps @ map f xs @ map f ss" by simp
  then show ?thesis unfolding sublist_def by blast
qed

lemma undelimited_id:
  "CHR '','' \<notin> set (map (\<lambda>c. if isDelimiter c then CHR '','' else c) q)
   \<Longrightarrow> map (\<lambda>c. if isDelimiter c then CHR '','' else c) q = q"
  by (induction q) (auto simp: isDelimiter_def split: if_splits)

lemma locationParts_sublist:
  assumes "p \<in> set (locationParts s)"
  shows "sublist p s"
proof -
  let ?r = "\<lambda>c. if isDelimiter c then CHR '','' else c"
  from assms obtain x where x: "x \<in> set (split CHR '','' (trim (map ?r s)))" "p = trim x"
    by (auto simp: locationParts_def Let_def)
  from split_parts[OF x(1)] have sx: "sublist x (trim (map ?r s))" and nx: "CHR '','' \<notin> set x" by auto
  from sx have "sublist x (map ?r s)"
    using sublist_trim sublist_order.order_trans by blast
  then obtain q where q: "sublist q s" "x = map ?r q" by (auto dest: sublist_map_ex)
  with nx have "x = q" using undelimited_id[of q] by simp
  with q have "sublist x s" by simp
  then show ?thesis unfolding x(2)
    using sublist_trim sublist_order.order_trans by blast
qed

lemma findCity_None:
  "\<forall>p \<in> set ps. \<forall>k \<in> set kenyaCities. \<not> includesStr k (toLowerCase p) \<Longrightarrow> findCity ps = (None, None)"
proof (induction ps)
  case Nil then show ?case by simp
next
  case (Cons p ps)
  then have "find (\<lambda>k. includesStr k (toLowerCase p)) kenyaCities = None"
    by (auto simp: find_None_iff)
  with Cons show ?case by simp
qed

lemma regions_known: "k \<in> set kenyaCities \<Longrightarrow> regions k \<noteq> None"
  by (auto simp: kenyaCities_def regions_def)

lemma findCity_region_city: "snd (findCity ps) \<noteq> None \<Longrightarrow> fst (findCity ps) \<noteq> None"
  by (induction ps) (auto split: option.splits)

lemma no_city_in_parts:
  assumes "\<forall>k \<in> set kenyaCities. \<not> includesStr k (toLowerCase s)"
  shows "findCity (locationParts (trim s)) = (None, None)"
proof (rule findCity_None, intro ballI)
  fix p k assume p: "p \<in> set (locationParts (trim s))" and k: "k \<in> set kenyaCities"
  have "sublist p s"
    using locationParts_sublist[OF p] sublist_trim sublist_order.order_trans by blast
  then have "sublist (toLowerCase p) (toLowerCase s)"
    unfolding toLowerCase_def by (rule sublist_map_mono)
  then show "\<not> includesStr k (toLowerCase p)"
    using assms k unfolding includesStr_sublist
    using sublist_order.order_trans by blast
qed

lemma dropWhile_hd: "s \<noteq> [] \<Longrightarrow> \<not> P (hd s) \<Longrightarrow> dropWhile P s = s"
  by (cases s) auto

lemma trim_between:
  assumes "s \<noteq> []" "\<not> isSpace (hd s)" "\<not> isSpace (last s)"
    and "list_all isSpace w1" "list_all isSpace w2"
  shows "trim (w1 @ s @ w2) = s"
proof -
  have w1: "\<forall>x \<in> set w1. isSpace x" and w2: "\<forall>x \<in> set (rev w2). isSpace x"
    using assms(4,5) by (auto simp: list_all_iff)
  have "dropWhile isSpace (w1 @ s @ w2) = dropWhile isSpace (s @ w2)"
    using w1 by (simp add: dropWhile_append2)
  also have "\<dots> = s @ w2"
    using assms(1,2) by (intro dropWhile_hd) auto
  finally have a: "dropWhile isSpace (w1 @ s @ w2) = s @ w2" .
  have "dropWhile isSpace (rev (s @ w2)) = dropWhile isSpace (rev w2 @ rev s)" by simp
  also have "\<dots> = dropWhile isSpace (rev s)"
    using w2 by (simp only: dropWhile_append2)
  also have "\<dots> = rev s"
    using assms(1,3) by (intro dropWhile_hd) (auto simp: hd_rev)
  finally show ?thesis by (simp add: trim_def a)
qed

lemma split_no_sep: "sep \<notin> set x \<Longrightarrow> split sep x = [x]"
  by (induction x) auto

lemma split_append_sep: "sep \<notin> set x \<Longrightarrow> split sep (x @ sep # y) = x # split sep y"
  by (induction x) auto

lemma space_not_delimiter: "isSpace c \<Longrightarrow> \<not> isDelimiter c"
  by (auto simp: isSpace_def isDelimiter_def)

lemma map_undelimited:
  "list_all (\<lambda>c. \<not> isDelimiter c) s \<Longrightarrow> map (\<lambda>c. if isDelimiter c then CHR '','' else c) s = s"
  by (induction s) auto

lemma undelimited_no_comma: "list_all (\<lambda>c. \<not> isDelimiter c) s \<Longrightarrow> CHR '','' \<notin> set s"
  by (auto simp: list_all_iff isDelimiter_def)

lemma locationParts_two:
  assumes a: "segmentText a" and c: "segmentText c"
    and w1: "list_all isSpace ws1" and w2: "list_all isSpace ws2" and d: "isDelimiter d"
  shows "trim (a @ ws1 @ [d] @ ws2 @ c) = a @ ws1 @ [d] @ ws2 @ c"
    and "locationParts (a @ ws1 @ [d] @ ws2 @ c) = [a, c]"
proof -
  let ?r = "\<lambda>c. if isDelimiter c then CHR '','' else c"
  have an: "a \<noteq> []" "\<not> isSpace (hd a)" "\<not> isSpace (last a)" "list_all (\<lambda>c. \<not> isDelimiter c) a"
    and cn: "c \<noteq> []" "\<not> isSpace (hd c)" "\<not> isSpace (last c)" "list_all (\<lambda>c. \<not> isDelimiter c) c"
    using a c by (auto simp: segmentText_def)
  have u1: "list_all (\<lambda>c. \<not> isDelimiter c) ws1" and u2: "list_all (\<lambda>c. \<not> isDelimiter c) ws2"
    using w1 w2 by (auto simp: list_all_iff dest: space_not_delimiter)
  have full: "s \<noteq> [] \<and> hd s = hd a \<and> last s = last c" if "s = a @ m @ c" for s m
    using that an(1) cn(1) by simp
  show "trim (a @ ws1 @ [d] @ ws2 @ c) = a @ ws1 @ [d] @ ws2 @ c"
    using trim_between[of "a @ ws1 @ [d] @ ws2 @ c" "[]" "[]"] full[of _ "ws1 @ [d] @ ws2"] an cn
    by simp
  have m: "map ?r (a @ ws1 @ [d] @ ws2 @ c) = (a @ ws1) @ CHR '','' # (ws2 @ c)"
    using an(4) cn(4) u1 u2 d by (simp add: map_undelimited)
  have t: "trim ((a @ ws1) @ CHR '','' # (ws2 @ c)) = (a @ ws1) @ CHR '','' # (ws2 @ c)"
    using trim_between[of "a @ ws1 @ [CHR '',''] @ ws2 @ c" "[]" "[]"]
      full[of _ "ws1 @ [CHR '',''] @ ws2"] an cn
    by simp
  have s: "split CHR '','' ((a @ ws1) @ CHR '','' # (ws2 @ c)) = [a @ ws1, ws2 @ c]"
    using an(4) cn(4) u1 u2
    by (simp only: split_append_sep split_no_sep undelimited_no_comma set_append Un_iff
        simp_thms not_False_eq_True)
  have ta: "trim (a @ ws1) = a" using trim_between[of a "[]" ws1] an w1 by simp
  have tc: "trim (ws2 @ c) = c" using trim_between[of c ws2 "[]"] cn w2 by simp
  show "locationParts (a @ ws1 @ [d] @ ws2 @ c) = [a, c]"
    unfolding locationParts_def Let_def m t s using ta tc an(1) cn(1) by simp
qed

lemma ex_nyali: "normalizeLocation numStr (Str ''Nyali, Mombasa'')
     = \<lparr>area = Some ''Nyali'', city = Some ''Mombasa'', region = Some ''Coast'',
        loc_original = Some ''Nyali, Mombasa''\<rparr>"
  by (simp add: normalizeLocation_def locationParts_def trim_def isSpace_def isDelimiter_def
      kenyaCities_def regions_def capitalize_def toLowerCase_def toLowerChar_def toUpperChar_def
      upper_letters_def lower_letters_def)

lemma ex_milimani: "normalizeLocation numStr (Str ''Milimani - Kisumu'')
     = \<lparr>area = Some ''Milimani'', city = Some ''Kisumu'', region = Some ''Nyanza'',
        loc_original = Some ''Milimani - Kisumu''\<rparr>"
  by (simp add: normalizeLocation_def locationParts_def trim_def isSpace_def isDelimiter_def
      kenyaCities_def regions_def capitalize_def toLowerCase_def toLowerChar_def toUpperChar_def
      upper_letters_def lower_letters_def)

lemma ex_thika: "normalizeLocation numStr (Str ''Thika Road, Nairobi'')
     = \<lparr>area = Some ''Thika Road'', city = Some ''Thika'', region = Some ''Central'',
        loc_original = Some ''Thika Road, Nairobi''\<rparr>"
  by (simp add: normalizeLocation_def locationParts_def trim_def isSpace_def isDelimiter_def
      kenyaCities_def regions_def capitalize_def toLowerCase_def toLowerChar_def toUpperChar_def
      upper_letters_def lower_letters_def)

lemma two_segments:
  assumes a: "segmentText a" and c: "segmentText c"
    and w1: "list_all isSpace ws1" and w2: "list_all isSpace ws2" and d: "isDelimiter d"
  shows "normalizeLocation numStr (Str (a @ ws1 @ [d] @ ws2 @ c))
     = \<lparr>area = Some a, city = fst (findCity [a, c]), region = snd (findCity [a, c]),
        loc_original = Some (a @ ws1 @ [d] @ ws2 @ c)\<rparr>"
proof -
  have "a \<noteq> []" using a by (simp add: segmentText_def)
  then show ?thesis
    using locationParts_two[OF a c w1 w2 d]
    by (simp add: normalizeLocation_def Let_def)
qed

lemma find_city_known:
  "find (\<lambda>k. includesStr k t) kenyaCities = Some k \<Longrightarrow> regions k \<noteq> None"
  by (rule regions_known) (auto simp: find_Some_iff in_set_conv_nth)

lemma trim_space_cons: "isSpace c \<Longrightarrow> trim (c # q) = trim q"
  by (simp add: trim_def)

lemma trim_space_snoc:
  assumes "isSpace c"
  shows "trim (q @ [c]) = trim q"
proof (cases "\<forall>x \<in> set q. isSpace x")
  case True
  then have e1: "dropWhile isSpace q = []"
    by (simp only: dropWhile_eq_Nil_conv)
  from True assms have "\<forall>x \<in> set (q @ [c]). isSpace x"
    by simp
  then have e2: "dropWhile isSpace (q @ [c]) = []"
    by (simp only: dropWhile_eq_Nil_conv)
  show ?thesis unfolding trim_def e1 e2 by simp
next
  case False
  then have "dropWhile isSpace (q @ [c]) = dropWhile isSpace q @ [c]"
    by (auto simp: dropWhile_append1)
  then show ?thesis using assms by (simp add: trim_def)
qed

lemma split_dropWhile_space:
  "\<not> isSpace sep \<Longrightarrow> map trim (split sep (dropWhile isSpace t)) = map trim (split sep t)"
proof (induction t)
  case Nil
  then show ?case by simp
next
  case (Cons c t)
  show ?case
  proof (cases "isSpace c")
    case True
    with Cons.prems have ne: "c \<noteq> sep" by auto
    obtain q qs where q: "split sep t = q # qs"
      using split_nonempty[of sep t] by (cases "split sep t") auto
    have "map trim (split sep (c # t)) = map trim (split sep t)"
      using ne q True by (simp add: trim_space_cons)
    with True Cons show ?thesis by simp
  next
    case False
    then show ?thesis by simp
  qed
qed

lemma split_snoc:
  "c \<noteq> sep \<Longrightarrow> split sep (t @ [c]) = butlast (split sep t) @ [last (split sep t) @ [c]]"
proof (induction t)
  case Nil
  then show ?case by simp
next
  case (Cons d t)
  obtain q qs where q: "split sep t = q # qs"
    using split_nonempty[of sep t] by (cases "split sep t") auto
  obtain q' qs' where q': "split sep (t @ [c]) = q' # qs'"
    using split_nonempty[of sep "t @ [c]"] by (cases "split sep (t @ [c])") auto
  from Cons q q' show ?case
    by (cases "d = sep") (auto simp: split_nonempty split: if_splits)
qed

lemma split_rtrim_space:
  "\<not> isSpace sep \<Longrightarrow>
     map trim (split sep (rev (dropWhile isSpace (rev t)))) = map trim (split sep t)"
proof (induction t rule: rev_induct)
  case Nil
  then show ?case by simp
next
  case (snoc c t)
  show ?case
  proof (cases "isSpace c")
    case True
    with snoc.prems have ne: "c \<noteq> sep" by auto
    have "map trim (split sep (t @ [c])) = map trim (split sep t)"
    proof -
      have "map trim (butlast (split sep t) @ [last (split sep t) @ [c]])
          = map trim (butlast (split sep t) @ [last (split sep t)])"
        using True by (simp add: trim_space_snoc)
      also have "\<dots> = map trim (split sep t)"
        using split_nonempty[of sep t] by simp
      finally show ?thesis by (simp add: split_snoc[OF ne])
    qed
    with True snoc show ?thesis by simp
  next
    case False
    then show ?thesis by simp
  qed
qed

lemma split_trim:
  assumes "\<not> isSpace sep"
  shows "map trim (split sep (trim t)) = map trim (split sep t)"
proof -
  have "trim t = rev (dropWhile isSpace (rev (dropWhile isSpace t)))"
    by (simp add: trim_def)
  then show ?thesis
    by (simp only: split_rtrim_space[OF assms] split_dropWhile_space[OF assms])
qed

lemma comma_not_space: "\<not> isSpace CHR '',''"
  by (simp add: isSpace_def)

lemma split_joined:
  "CHR '','' \<notin> set p \<Longrightarrow> \<forall>q \<in> set qs. CHR '','' \<notin> set q \<Longrightarrow>
     split CHR '','' (p @ concat (map (\<lambda>q. CHR '','' # q) qs)) = p # qs"
proof (induction qs arbitrary: p)
  case Nil
  then show ?case by (simp add: split_no_sep)
next
  case (Cons q qs)
  then show ?case by (simp add: split_append_sep)
qed

lemma map_joinSegments:
  assumes "undelimited p" "delimitedSegments rest"
  shows "map (\<lambda>c. if isDelimiter c then CHR '','' else c) (joinSegments p rest)
     = p @ concat (map (\<lambda>q. CHR '','' # q) (map snd rest))"
proof -
  have "map (\<lambda>c. if isDelimiter c then CHR '','' else c) (concat (map (\<lambda>(d, q). d # q) rest))
     = concat (map (\<lambda>q. CHR '','' # q) (map snd rest))"
    using assms(2)
    by (induction rest) (auto simp: delimitedSegments_def undelimited_def map_undelimited)
  with assms(1) show ?thesis
    by (simp add: joinSegments_def undelimited_def map_undelimited)
qed

lemma locationParts_joinSegments:
  assumes p: "undelimited p" and r: "delimitedSegments rest"
  shows "locationParts (joinSegments p rest)
     = filter (\<lambda>q. q \<noteq> []) (map trim (p # map snd rest))"
proof -
  have c1: "CHR '','' \<notin> set p"
    using p by (simp add: undelimited_def undelimited_no_comma)
  have c2: "\<forall>q \<in> set (map snd rest). CHR '','' \<notin> set q"
    using r by (auto simp: delimitedSegments_def undelimited_def list_all_iff
        dest!: undelimited_no_comma[unfolded list_all_iff])
  show ?thesis
    unfolding locationParts_def Let_def map_joinSegments[OF p r]
    by (simp only: split_trim[OF comma_not_space] split_joined[OF c1 c2])
qed

lemma first_filter_map:
  "(case filter P (map f xs) of [] \<Rightarrow> None | x # ys \<Rightarrow> Some x)
     = map_option f (find (\<lambda>x. P (f x)) xs)"
  by (induction xs) auto

lemma joinSegments_exists:
  "\<exists>p rest. s = joinSegments p rest \<and> undelimited p \<and> delimitedSegments rest"
proof (induction s)
  case Nil
  have "[] = joinSegments [] [] \<and> undelimited [] \<and> delimitedSegments []"
    by (simp add: joinSegments_def undelimited_def delimitedSegments_def)
  then show ?case by blast
next
  case (Cons c s)
  then obtain p rest where s: "s = joinSegments p rest" "undelimited p" "delimitedSegments rest"
    by blast
  show ?case
  proof (cases "isDelimiter c")
    case True
    with s have "c # s = joinSegments [] ((c, p) # rest) \<and> undelimited []
        \<and> delimitedSegments ((c, p) # rest)"
      by (simp add: joinSegments_def undelimited_def delimitedSegments_def)
    then show ?thesis by blast
  next
    case False
    with s have "c # s = joinSegments (c # p) rest \<and> undelimited (c # p)
        \<and> delimitedSegments rest"
      by (simp add: joinSegments_def undelimited_def delimitedSegments_def)
    then show ?thesis by blast
  qed
qed


lemma space_undelimited: "isSpace (if isDelimiter c then CHR '','' else c) = isSpace c"
  by (auto simp: isSpace_def isDelimiter_def)

lemma trim_map_delimiters:
  "trim (map (\<lambda>c. if isDelimiter c then CHR '','' else c) s)
     = map (\<lambda>c. if isDelimiter c then CHR '','' else c) (trim s)"
proof -
  have o: "isSpace \<circ> (\<lambda>c. if isDelimiter c then CHR '','' else c) = isSpace"
    by (rule ext) (simp only: comp_apply space_undelimited)
  show ?thesis
    unfolding trim_def by (simp only: dropWhile_map rev_map o)
qed

lemma trim_trim: "trim (trim s) = trim s"
proof (cases "trim s = []")
  case True
  have "trim [] = []" by (simp add: trim_def)
  then show ?thesis by (simp only: True)
next
  case False
  let ?l = "dropWhile isSpace s"
  have "trim s = rev (dropWhile isSpace (rev ?l))"
    by (simp only: trim_def)
  with False have r: "dropWhile isSpace (rev ?l) \<noteq> []"
    by (metis rev_is_Nil_conv)
  then have l: "?l \<noteq> []"
    by (metis dropWhile.simps(1) rev.simps(1))
  then have h: "\<not> isSpace (hd ?l)" by (rule hd_dropWhile)
  have "hd (trim s) = hd ?l"
  proof -
    have "rev ?l = takeWhile isSpace (rev ?l) @ dropWhile isSpace (rev ?l)" by simp
    then have "?l = trim s @ rev (takeWhile isSpace (rev ?l))"
      unfolding trim_def by (metis rev_append rev_rev_ident)
    with False show ?thesis by (metis hd_append2)
  qed
  with h have a: "dropWhile isSpace (trim s) = trim s"
    using False by (intro dropWhile_hd) simp_all
  have "\<not> isSpace (hd (dropWhile isSpace (rev ?l)))"
    using r by (rule hd_dropWhile)
  then have b: "dropWhile isSpace (rev (trim s)) = rev (trim s)"
    using r by (intro dropWhile_hd) (simp_all add: trim_def)
  show ?thesis
    by (simp add: trim_def[of "trim s"] a b)
qed

lemma locationParts_trim: "locationParts (trim s) = locationParts s"
  unfolding locationParts_def Let_def
  by (simp only: trim_map_delimiters trim_trim)

lemma joinSegments_Nil: "joinSegments p rest = [] \<longleftrightarrow> p = [] \<and> rest = []"
  by (cases rest) (auto simp: joinSegments_def)

lemma area_joinSegments:
  assumes p: "undelimited p" and r: "delimitedSegments rest"
  shows "area (normalizeLocation numStr (Str (joinSegments p rest)))
     = map_option trim (find (\<lambda>q. trim q \<noteq> []) (p # map snd rest))"
proof (cases "joinSegments p rest = []")
  case True
  then have "p = []" "rest = []" by (simp_all add: joinSegments_Nil)
  then show ?thesis
    by (simp add: normalizeLocation_def joinSegments_def trim_def)
next
  case False
  then have "area (normalizeLocation numStr (Str (joinSegments p rest)))
      = (case locationParts (joinSegments p rest) of [] \<Rightarrow> None | x # ys \<Rightarrow> Some x)"
    by (simp add: normalizeLocation_def Let_def locationParts_trim)
  also have "\<dots> = map_option trim (find (\<lambda>q. trim q \<noteq> []) (p # map snd rest))"
    unfolding locationParts_joinSegments[OF p r] by (rule first_filter_map)
  finally show ?thesis .
qed

text \<open>
  Claim C4, as amended; all texts are ASCII. For a location text made of an area, a
  delimiter (comma, hyphen or slash, with optional blanks around it) and a city part:
  when the area holds no known city and \<open>k\<close> is the first city of the list that the
  city part holds (compared in lower case, as a substring), the result has the area
  as written, the capitalised \<open>k\<close> as city and the region the table gives for \<open>k\<close>,
  which is never null. When the area itself holds a known city \<open>j\<close>, that city and its
  region are returned instead. For every input text that holds no known city, city
  and region are null. For every input text, read as the segments between its
  delimiters, the area is the first segment that is not blank, without the blanks
  around it, and null when every segment is blank; every text has such a reading.
  The region is non-null only if the city is. The two examples of the claim hold.
\<close>

theorem location_resolution:
  "(list_all isAscii (a @ c)
      \<and> segmentText a \<and> segmentText c \<and> list_all isSpace wa \<and> list_all isSpace wb \<and> isDelimiter d
      \<and> find (\<lambda>k. includesStr k (toLowerCase a)) kenyaCities = None
      \<and> find (\<lambda>k. includesStr k (toLowerCase c)) kenyaCities = Some k
    \<longrightarrow> normalizeLocation numStr (Str (a @ wa @ [d] @ wb @ c))
          = \<lparr>area = Some a, city = Some (capitalize k), region = regions k,
             loc_original = Some (a @ wa @ [d] @ wb @ c)\<rparr>
        \<and> regions k \<noteq> None)
   \<and> (list_all isAscii (a @ c)
      \<and> segmentText a \<and> segmentText c \<and> list_all isSpace wa \<and> list_all isSpace wb \<and> isDelimiter d
      \<and> find (\<lambda>k. includesStr k (toLowerCase a)) kenyaCities = Some j
    \<longrightarrow> normalizeLocation numStr (Str (a @ wa @ [d] @ wb @ c))
          = \<lparr>area = Some a, city = Some (capitalize j), region = regions j,
             loc_original = Some (a @ wa @ [d] @ wb @ c)\<rparr>)
   \<and> (list_all isAscii s \<and> (\<forall>k \<in> set kenyaCities. \<not> includesStr k (toLowerCase s))
    \<longrightarrow> city (normalizeLocation numStr (Str s)) = None
        \<and> region (normalizeLocation numStr (Str s)) = None)
   \<and> (list_all isAscii (joinSegments p rest) \<and> undelimited p \<and> delimitedSegments rest
    \<longrightarrow> area (normalizeLocation numStr (Str (joinSegments p rest)))
          = map_option trim (find (\<lambda>q. trim q \<noteq> []) (p # map snd rest)))
   \<and> (\<exists>p rest. s = joinSegments p rest \<and> undelimited p \<and> delimitedSegments rest)
   \<and> (list_all isAscii (toStr numStr v) \<and> region (normalizeLocation numStr v) \<noteq> None
    \<longrightarrow> city (normalizeLocation numStr v) \<noteq> None)
   \<and> normalizeLocation numStr (Str ''Nyali, Mombasa'')
       = \<lparr>area = Some ''Nyali'', city = Some ''Mombasa'', region = Some ''Coast'',
          loc_original = Some ''Nyali, Mombasa''\<rparr>
   \<and> normalizeLocation numStr (Str ''Milimani - Kisumu'')
       = \<lparr>area = Some ''Milimani'', city = Some ''Kisumu'', region = Some ''Nyanza'',
          loc_original = Some ''Milimani - Kisumu''\<rparr>"
proof (intro conjI impI)
  assume h: "list_all isAscii (a @ c)
      \<and> segmentText a \<and> segmentText c \<and> list_all isSpace wa \<and> list_all isSpace wb \<and> isDelimiter d
      \<and> find (\<lambda>k. includesStr k (toLowerCase a)) kenyaCities = None
      \<and> find (\<lambda>k. includesStr k (toLowerCase c)) kenyaCities = Some k"
  then have seg: "segmentText a" "segmentText c" "list_all isSpace wa" "list_all isSpace wb" "isDelimiter d"
    and fa: "find (\<lambda>k. includesStr k (toLowerCase a)) kenyaCities = None"
    and fc: "find (\<lambda>k. includesStr k (toLowerCase c)) kenyaCities = Some k"
    by simp_all
  show "normalizeLocation numStr (Str (a @ wa @ [d] @ wb @ c))
          = \<lparr>area = Some a, city = Some (capitalize k), region = regions k,
             loc_original = Some (a @ wa @ [d] @ wb @ c)\<rparr>"
    unfolding two_segments[OF seg] by (simp add: fa fc)
  show "regions k \<noteq> None" by (rule find_city_known[OF fc])
next
  assume h: "list_all isAscii (a @ c)
      \<and> segmentText a \<and> segmentText c \<and> list_all isSpace wa \<and> list_all isSpace wb \<and> isDelimiter d
      \<and> find (\<lambda>k. includesStr k (toLowerCase a)) kenyaCities = Some j"
  then have seg: "segmentText a" "segmentText c" "list_all isSpace wa" "list_all isSpace wb" "isDelimiter d"
    and fa: "find (\<lambda>k. includesStr k (toLowerCase a)) kenyaCities = Some j"
    by simp_all
  show "normalizeLocation numStr (Str (a @ wa @ [d] @ wb @ c))
          = \<lparr>area = Some a, city = Some (capitalize j), region = regions j,
             loc_original = Some (a @ wa @ [d] @ wb @ c)\<rparr>"
    unfolding two_segments[OF seg] by (simp add: fa)
next
  assume "list_all isAscii s \<and> (\<forall>k \<in> set kenyaCities. \<not> includesStr k (toLowerCase s))"
  then have n: "\<forall>k \<in> set kenyaCities. \<not> includesStr k (toLowerCase s)" by (rule conjunct2)
  have f: "findCity (locationParts (trim s)) = (None, None)"
    by (rule no_city_in_parts[OF n])
  show "city (normalizeLocation numStr (Str s)) = None"
    by (simp add: normalizeLocation_def Let_def f)
  show "region (normalizeLocation numStr (Str s)) = None"
    by (simp add: normalizeLocation_def Let_def f)
next
  assume "list_all isAscii (joinSegments p rest) \<and> undelimited p \<and> delimitedSegments rest"
  then have "undelimited p" "delimitedSegments rest" by simp_all
  then show "area (normalizeLocation numStr (Str (joinSegments p rest)))
          = map_option trim (find (\<lambda>q. trim q \<noteq> []) (p # map snd rest))"
    by (rule area_joinSegments)
next
  show "\<exists>p rest. s = joinSegments p rest \<and> undelimited p \<and> delimitedSegments rest"
    by (rule joinSegments_exists)
next
  assume "list_all isAscii (toStr numStr v) \<and> region (normalizeLocation numStr v) \<noteq> None"
  then have "region (normalizeLocation numStr v) \<noteq> None" by (rule conjunct2)
  then show "city (normalizeLocation numStr v) \<noteq> None"
    by (cases "truthy v") (simp_all add: normalizeLocation_def Let_def findCity_region_city)
next
  show "normalizeLocation numStr (Str ''Nyali, Mombasa'')
       = \<lparr>area = Some ''Nyali'', city = Some ''Mombasa'', region = Some ''Coast'',
          loc_original = Some ''Nyali, Mombasa''\<rparr>" by (rule ex_nyali)
  show "normalizeLocation numStr (Str ''Milimani - Kisumu'')
       = \<lparr>area = Some ''Milimani'', city = Some ''Kisumu'', region = Some ''Nyanza'',
          loc_original = Some ''Milimani - Kisumu''\<rparr>" by (rule ex_milimani)
qed


text \<open>
  Claim C4 as first stated fails: in the text below the city part holds Nairobi, but
  the area holds Thika, which is found first.
\<close>

theorem location_resolution_counterexample:
  "includesStr ''nairobi'' (toLowerCase '' Nairobi'')
   \<and> city (normalizeLocation (\<lambda>n. []) (Str ''Thika Road, Nairobi'')) = Some ''Thika''
   \<and> region (normalizeLocation (\<lambda>n. []) (Str ''Thika Road, Nairobi'')) = Some ''Central''
   \<and> city (normalizeLocation (\<lambda>n. []) (Str ''Thika Road, Nairobi'')) \<noteq> Some ''Nairobi''"
  by (simp add: ex_thika toLowerCase_def toLowerChar_def upper_letters_def lower_letters_def)

theorem location_resolution_witness:
  "normalizeLocation (\<lambda>n. []) (Str ''Karen / Nairobi West'')
     = \<lparr>area = Some ''Karen'', city = Some ''Nairobi'', region = Some ''Nairobi'',
        loc_original = Some ''Karen / Nairobi West''\<rparr>
   \<and> normalizeLocation (\<lambda>n. []) (Str ''Thika Road, Nairobi'')
     = \<lparr>area = Some ''Thika Road'', city = Some ''Thika'', region = Some ''Central'',
        loc_original = Some ''Thika Road, Nairobi''\<rparr>
   \<and> city (normalizeLocation (\<lambda>n. []) (Str ''Runda Estate'')) = None
   \<and> region (normalizeLocation (\<lambda>n. []) (Str ''Runda Estate'')) = None
   \<and> area (normalizeLocation (\<lambda>n. []) (Str ''- , Runda'')) = Some ''Runda''
   \<and> city (normalizeLocation (\<lambda>n. []) (Str ''Karen / Nairobi West'')) \<noteq> None"
proof -
  note t = location_resolution [where a = "''Karen''" and c = "''Nairobi West''"
      and wa = "'' ''" and wb = "'' ''" and d = "CHR ''/''" and k = "''nairobi''"
      and numStr = "\<lambda>n. []" and j = "''thika''" and s = "''Runda Estate''"
      and p = "[]" and rest = "[(CHR ''-'', '' ''), (CHR '','', '' Runda'')]"
      and v = "Str ''Karen / Nairobi West''"]
  note u = location_resolution [where a = "''Thika Road''" and c = "''Nairobi''"
      and wa = "[]" and wb = "'' ''" and d = "CHR '',''" and k = "''nairobi''"
      and numStr = "\<lambda>n. []" and j = "''thika''" and s = "''Runda Estate''"
      and p = "[]" and rest = "[]" and v = Null]
  have a1: "list_all isAscii (''Karen'' @ ''Nairobi West'')"
    and a2: "list_all isAscii (''Thika Road'' @ ''Nairobi'')"
    and a3: "list_all isAscii ''Runda Estate''"
    and a4: "list_all isAscii (joinSegments [] [(CHR ''-'', '' ''), (CHR '','', '' Runda'')])"
    and a5: "list_all isAscii (toStr (\<lambda>n. []) (Str ''Karen / Nairobi West''))"
    by (simp_all add: isAscii_def joinSegments_def)
  have seg: "segmentText ''Karen''" "segmentText ''Nairobi West''" "list_all isSpace '' ''"
      "isDelimiter CHR ''/''"
    by (simp_all add: segmentText_def isSpace_def isDelimiter_def)
  have seg2: "segmentText ''Thika Road''" "segmentText ''Nairobi''" "list_all isSpace []"
      "isDelimiter CHR '',''"
    by (simp_all add: segmentText_def isSpace_def isDelimiter_def)
  have fa: "find (\<lambda>k. includesStr k (toLowerCase ''Karen'')) kenyaCities = None"
    by (simp add: kenyaCities_def toLowerCase_def toLowerChar_def upper_letters_def lower_letters_def)
  have fc: "find (\<lambda>k. includesStr k (toLowerCase ''Nairobi West'')) kenyaCities = Some ''nairobi''"
    by (simp add: kenyaCities_def toLowerCase_def toLowerChar_def upper_letters_def lower_letters_def)
  have ft: "find (\<lambda>k. includesStr k (toLowerCase ''Thika Road'')) kenyaCities = Some ''thika''"
    by (simp add: kenyaCities_def toLowerCase_def toLowerChar_def upper_letters_def lower_letters_def)
  have nc: "\<forall>k \<in> set kenyaCities. \<not> includesStr k (toLowerCase ''Runda Estate'')"
    by (simp add: kenyaCities_def toLowerCase_def toLowerChar_def upper_letters_def lower_letters_def)
  have sg: "undelimited []" "delimitedSegments [(CHR ''-'', '' ''), (CHR '','', '' Runda'')]"
    by (simp_all add: undelimited_def delimitedSegments_def isDelimiter_def)
  from t have "normalizeLocation (\<lambda>n. []) (Str (''Karen'' @ '' '' @ [CHR ''/''] @ '' '' @ ''Nairobi West''))
          = \<lparr>area = Some ''Karen'', city = Some (capitalize ''nairobi''), region = regions ''nairobi'',
             loc_original = Some (''Karen'' @ '' '' @ [CHR ''/''] @ '' '' @ ''Nairobi West'')\<rparr>"
    using a1 seg fa fc by (elim conjE) (simp only: simp_thms)
  then have r1: "normalizeLocation (\<lambda>n. []) (Str ''Karen / Nairobi West'')
     = \<lparr>area = Some ''Karen'', city = Some ''Nairobi'', region = Some ''Nairobi'',
        loc_original = Some ''Karen / Nairobi West''\<rparr>"
    by (simp add: capitalize_def regions_def toUpperChar_def upper_letters_def lower_letters_def)
  from u have "normalizeLocation (\<lambda>n. []) (Str (''Thika Road'' @ [] @ [CHR '',''] @ '' '' @ ''Nairobi''))
          = \<lparr>area = Some ''Thika Road'', city = Some (capitalize ''thika''), region = regions ''thika'',
             loc_original = Some (''Thika Road'' @ [] @ [CHR '',''] @ '' '' @ ''Nairobi'')\<rparr>"
    using a2 seg2 seg(3) ft by (elim conjE) (simp only: simp_thms)
  then have r2: "normalizeLocation (\<lambda>n. []) (Str ''Thika Road, Nairobi'')
     = \<lparr>area = Some ''Thika Road'', city = Some ''Thika'', region = Some ''Central'',
        loc_original = Some ''Thika Road, Nairobi''\<rparr>"
    by (simp add: capitalize_def regions_def toUpperChar_def upper_letters_def lower_letters_def)
  from t have r3: "city (normalizeLocation (\<lambda>n. []) (Str ''Runda Estate'')) = None
        \<and> region (normalizeLocation (\<lambda>n. []) (Str ''Runda Estate'')) = None"
    using a3 nc by (elim conjE) (simp only: simp_thms)
  from t have "area (normalizeLocation (\<lambda>n. [])
        (Str (joinSegments [] [(CHR ''-'', '' ''), (CHR '','', '' Runda'')])))
      = map_option trim (find (\<lambda>q. trim q \<noteq> [])
          ([] # map snd [(CHR ''-'', '' ''), (CHR '','', '' Runda'')]))"
    using a4 sg by (elim conjE) (simp only: simp_thms)
  then have r4: "area (normalizeLocation (\<lambda>n. []) (Str ''- , Runda'')) = Some ''Runda''"
    by (simp add: joinSegments_def trim_def isSpace_def)
  from t have "list_all isAscii (toStr (\<lambda>n. []) (Str ''Karen / Nairobi West''))
      \<and> region (normalizeLocation (\<lambda>n. []) (Str ''Karen / Nairobi West'')) \<noteq> None
    \<longrightarrow> city (normalizeLocation (\<lambda>n. []) (Str ''Karen / Nairobi West'')) \<noteq> None"
    by (elim conjE)
  moreover have "region (normalizeLocation (\<lambda>n. []) (Str ''Karen / Nairobi West'')) \<noteq> None"
    by (simp add: r1)
  ultimately have r5: "city (normalizeLocation (\<lambda>n. []) (Str ''Karen / Nairobi West'')) \<noteq> None"
    using a5 by (elim mp) (intro conjI)
  from r1 r2 r3 r4 r5 show ?thesis by (intro conjI) simp_all
qed

section \<open>Properties of the price normaliser\<close>

subsection \<open>Falsy input\<close>

lemma falsy_values:
  "\<not> truthy p \<longleftrightarrow> p \<in> {Undefined, Null, Bool False, Number NaN, Number (Fin 0), Str []}"
  by (cases p) auto

text \<open>
  Claim C10. For every falsy price input, \<open>normalizePrice\<close> returns a null amount, the
  target currency and a null original. The falsy values are \<^verbatim>\<open>undefined\<close>, \<^verbatim>\<open>null\<close>,
  \<^verbatim>\<open>false\<close>, NaN, the number 0 and the empty string; so the number 0, a genuine zero
  price, gives the same result as \<^verbatim>\<open>null\<close>, and so does the empty string.
\<close>

theorem price_falsy_input:
  "(\<not> truthy priceStr \<longrightarrow>
      normalizePrice numStr priceStr targetCurrency
        = \<lparr>amount = None, currency = targetCurrency, original = None\<rparr>)
   \<and> (\<not> truthy priceStr \<longleftrightarrow>
        priceStr \<in> {Undefined, Null, Bool False, Number NaN, Number (Fin 0), Str []})
   \<and> normalizePrice numStr (Number (Fin 0)) targetCurrency
        = \<lparr>amount = None, currency = targetCurrency, original = None\<rparr>
   \<and> normalizePrice numStr (Number (Fin 0)) targetCurrency
        = normalizePrice numStr Null targetCurrency
   \<and> normalizePrice numStr (Str []) targetCurrency
        = normalizePrice numStr Null targetCurrency"
  by (simp add: normalizePrice_def falsy_values)

theorem price_falsy_input_witness:
  "\<not> truthy (Number (Fin 0))
   \<and> normalizePrice (\<lambda>n. ''0'') (Number (Fin 0)) ''KES''
        = \<lparr>amount = None, currency = ''KES'', original = None\<rparr>"
  using price_falsy_input [of "Number (Fin 0)" "\<lambda>n. ''0''" "''KES''"] by simp

subsection \<open>Doubles\<close>

lemma pow2_powi: "pow2 e = 2 powi e"
  by (simp add: pow2_def power_int_def power_one_over inverse_eq_divide)

lemma pow2_pos: "0 < pow2 e"
  by (simp add: pow2_powi)

lemma pow2_add: "pow2 (a + b) = pow2 a * pow2 b"
  by (simp add: pow2_powi power_int_add)

lemma pow2_less_iff: "pow2 a < pow2 b \<longleftrightarrow> a < b"
proof
  assume "pow2 a < pow2 b"
  show "a < b"
  proof (rule ccontr)
    assume "\<not> a < b"
    then have "b \<le> a" by simp
    then have "pow2 b \<le> pow2 a" unfolding pow2_powi by (intro power_int_increasing) auto
    with \<open>pow2 a < pow2 b\<close> show False by simp
  qed
next
  assume "a < b"
  then show "pow2 a < pow2 b" unfolding pow2_powi by (intro power_int_strict_increasing) auto
qed

lemma pow2_nat: "pow2 (int n) = 2 ^ n"
  by (simp add: pow2_powi)

lemma bitlen_rat_bounds:
  assumes "0 < (p::int)"
  shows "pow2 (bitlen p - 1) \<le> of_int p \<and> (of_int p :: rat) < pow2 (bitlen p)"
proof -
  from bitlen_bounds[OF assms] have b: "2 ^ nat (bitlen p - 1) \<le> p" "p < 2 ^ nat (bitlen p)"
    by auto
  have ge: "1 \<le> bitlen p" using assms by (auto simp: bitlen_alt_def)
  have "(of_int (2 ^ nat (bitlen p - 1)) :: rat) \<le> of_int p" using b(1) by (simp only: of_int_le_iff)
  moreover have "(of_int p :: rat) < of_int (2 ^ nat (bitlen p))" using b(2) by (simp only: of_int_less_iff)
  ultimately show ?thesis using ge by (simp add: pow2_def)
qed

lemma ilog2_bounds:
  assumes "0 < x"
  shows "pow2 (ilog2 x) \<le> x \<and> x < pow2 (ilog2 x + 1)"
proof -
  obtain p q where pq: "quotient_of x = (p, q)" by (cases "quotient_of x")
  have q: "0 < q" by (rule quotient_of_denom_pos[OF pq])
  have x: "x = of_int p / of_int q" by (rule quotient_of_div[OF pq])
  have p: "0 < p" using assms q x by (simp add: zero_less_divide_iff)
  let ?d = "bitlen p - bitlen q"
  note bp = bitlen_rat_bounds[OF p] and bq = bitlen_rat_bounds[OF q]
  have qpos: "(0::rat) < of_int q" using q by simp
  have up: "x < pow2 (?d + 1)"
  proof -
    have "of_int p < pow2 (bitlen p)" using bp by simp
    also have "\<dots> = pow2 (?d + 1) * pow2 (bitlen q - 1)" by (simp add: pow2_add[symmetric])
    also have "\<dots> \<le> pow2 (?d + 1) * of_int q"
      using bq pow2_pos[of "?d + 1"] by (simp add: mult_left_mono)
    finally show ?thesis using qpos unfolding x by (simp add: pos_divide_less_eq)
  qed
  have lo: "pow2 (?d - 1) < x"
  proof -
    have "pow2 (?d - 1) * of_int q < pow2 (?d - 1) * pow2 (bitlen q)"
      using bq pow2_pos[of "?d - 1"] by (simp add: mult_strict_left_mono)
    also have "\<dots> = pow2 (bitlen p - 1)" by (simp add: pow2_add[symmetric])
    also have "\<dots> \<le> of_int p" using bp by simp
    finally show ?thesis using qpos unfolding x by (simp add: pos_less_divide_eq)
  qed
  show ?thesis
  proof (cases "pow2 ?d \<le> x")
    case True
    then have "ilog2 x = ?d" by (simp add: ilog2_def pq)
    with True up show ?thesis by simp
  next
    case False
    then have "ilog2 x = ?d - 1" by (simp add: ilog2_def pq)
    with False lo show ?thesis by simp
  qed
qed

lemma ilog2_unique:
  assumes "0 < x" "pow2 k \<le> x" "x < pow2 (k + 1)"
  shows "ilog2 x = k"
proof -
  from ilog2_bounds[OF assms(1)] have b: "pow2 (ilog2 x) \<le> x" "x < pow2 (ilog2 x + 1)" by auto
  have "pow2 (ilog2 x) < pow2 (k + 1)" using b(1) assms(3) by simp
  then have "ilog2 x < k + 1" by (simp only: pow2_less_iff)
  moreover have "pow2 k < pow2 (ilog2 x + 1)" using b(2) assms(2) by simp
  then have "k < ilog2 x + 1" by (simp only: pow2_less_iff)
  ultimately show ?thesis by simp
qed

lemma roundEven_int: "roundEven (of_int k) = k"
  by (simp add: roundEven_def)

lemma toDouble_cert:
  assumes "0 < x" "pow2 (e + 52) \<le> x" "x < pow2 (e + 53)" "- 1074 \<le> e"
    and "roundEven (x / pow2 e) = m"
    and "of_int m * pow2 e < pow2 1024"
  shows "toDouble x = Fin (of_int m * pow2 e)"
proof -
  have "ilog2 x = e + 52" using assms(1-3) by (intro ilog2_unique) (simp_all add: add.commute add.left_commute)
  then have "max (ilog2 \<bar>x\<bar> - 52) (- 1074) = e" using assms(1,4) by simp
  then show ?thesis using assms(1,5,6) by (simp add: toDouble_def Let_def)
qed

lemma toDouble_nat:
  assumes "n < 2 ^ 53"
  shows "toDouble (of_nat n) = Fin (of_nat n)"
proof (cases "n = 0")
  case True
  then show ?thesis by (simp add: toDouble_def)
next
  case False
  let ?x = "of_nat n :: rat"
  let ?k = "ilog2 ?x"
  have pos: "0 < ?x" using False by simp
  from ilog2_bounds[OF pos] have b: "pow2 ?k \<le> ?x" "?x < pow2 (?k + 1)" by auto
  have "?x < pow2 53"
  proof -
    have "?x < of_nat (2 ^ 53)" using assms by (simp only: of_nat_less_iff)
    then show ?thesis by (simp add: pow2_def)
  qed
  with b(1) have "pow2 ?k < pow2 53" by simp
  then have k53: "?k < 53" by (simp only: pow2_less_iff)
  have "pow2 0 \<le> ?x" using False by (simp add: pow2_def)
  with b(2) have "pow2 0 < pow2 (?k + 1)" by simp
  then have k0: "0 \<le> ?k" by (simp add: pow2_less_iff)
  let ?e = "?k - 52"
  have e: "max (?k - 52) (- 1074) = ?e" using k0 by simp
  have pe: "pow2 ?e = 1 / 2 ^ nat (52 - ?k)" using k53 by (cases "?k = 52") (simp_all add: pow2_def)
  have "?x / pow2 ?e = of_int (int n * 2 ^ nat (52 - ?k))" by (simp add: pe)
  then have re: "roundEven (?x / pow2 ?e) = int n * 2 ^ nat (52 - ?k)"
    by (simp only: roundEven_int)
  have r: "of_int (roundEven (?x / pow2 ?e)) * pow2 ?e = ?x"
  proof -
    have "of_int (roundEven (?x / pow2 ?e)) * pow2 ?e
        = of_int (int n * 2 ^ nat (52 - ?k)) * pow2 ?e" by (simp only: re)
    also have "\<dots> = ?x" by (simp add: pe)
    finally show ?thesis .
  qed
  have "pow2 53 < pow2 1024" by (simp add: pow2_less_iff)
  with \<open>?x < pow2 53\<close> have big: "\<not> pow2 1024 \<le> ?x" by simp
  show ?thesis using pos False big by (simp add: toDouble_def Let_def e r)
qed

lemma roundEven_near:
  assumes "\<bar>x - of_int m\<bar> < 1 / 2"
  shows "roundEven x = m"
proof (cases "of_int m \<le> x")
  case True
  then have "\<lfloor>x\<rfloor> = m" using assms by (intro floor_unique) auto
  then show ?thesis using assms True by (simp add: roundEven_def Let_def)
next
  case False
  then have f: "\<lfloor>x\<rfloor> = m - 1" using assms by (intro floor_unique) auto
  have "\<not> x - of_int (m - 1) < 1 / 2" "1 / 2 < x - of_int (m - 1)" using assms False by auto
  then show ?thesis unfolding roundEven_def Let_def f by simp
qed


lemma rate_kes: "toDouble (64 / 10000) = Fin (7378697629483821 / 1152921504606846976)"
proof -
  have "toDouble (64 / 10000) = Fin (of_int 7378697629483821 * pow2 (- 60))"
    by (rule toDouble_cert) (simp_all add: pow2_def roundEven_near)
  then show ?thesis by (simp add: pow2_def)
qed

lemma rate_usd: "toDouble (15625 / 100) = Fin (625 / 4)"
proof -
  have "toDouble (15625 / 100) = Fin (of_int 5497558138880000 * pow2 (- 45))"
    by (rule toDouble_cert) (simp_all add: pow2_def roundEven_near)
  then show ?thesis by (simp add: pow2_def)
qed




subsection \<open>Cleaning and parsing price text\<close>

lemma find_None_heads:
  assumes "\<forall>t \<in> set toks. t \<noteq> [] \<longrightarrow> hd t \<noteq> c"
  shows "find (\<lambda>t. t \<noteq> [] \<and> prefix t (c # cs)) toks = None"
proof -
  have "\<not> (t \<noteq> [] \<and> prefix t (c # cs))" if "t \<in> set toks" for t
  proof (cases t)
    case Nil then show ?thesis by simp
  next
    case (Cons a t')
    with assms that have "a \<noteq> c" by auto
    with Cons show ?thesis by simp
  qed
  then show ?thesis by (simp add: find_None_iff)
qed

lemma suffix_kes_K: "removeTokens kesTokens ''K'' = ''K''"
  by (simp add: kesTokens_def)

lemma removeTokens_skip:
  "\<forall>c \<in> set x. \<forall>t \<in> set toks. t \<noteq> [] \<longrightarrow> hd t \<noteq> c \<Longrightarrow>
   removeTokens toks (x @ y) = x @ removeTokens toks y"
proof (induction x)
  case Nil
  then show ?case by simp
next
  case (Cons a x)
  then have a: "\<forall>t \<in> set toks. t \<noteq> [] \<longrightarrow> hd t \<noteq> a"
    and x: "\<forall>c \<in> set x. \<forall>t \<in> set toks. t \<noteq> [] \<longrightarrow> hd t \<noteq> c" by simp_all
  have "removeTokens toks ((a # x) @ y) = a # removeTokens toks (x @ y)"
    by (simp add: find_None_heads[OF a])
  then show ?case using Cons.IH[OF x] by simp
qed

lemma includesStr_head:
  assumes "needle \<noteq> []" "hd needle \<notin> set hay"
  shows "\<not> includesStr needle hay"
proof -
  obtain a n where n: "needle = a # n" using assms(1) by (cases needle) auto
  have "a \<notin> set hay \<Longrightarrow> \<not> includesStr (a # n) hay"
    by (induction hay) simp_all
  with assms(2) n show ?thesis by simp
qed

lemma digit_cases:
  assumes "isDigit d"
  obtains "d = CHR ''0''" | "d = CHR ''1''" | "d = CHR ''2''" | "d = CHR ''3''" | "d = CHR ''4''"
    | "d = CHR ''5''" | "d = CHR ''6''" | "d = CHR ''7''" | "d = CHR ''8''" | "d = CHR ''9''"
  using assms unfolding isDigit_def by auto

lemma digit_neq:
  assumes "isDigit d"
  shows "d \<noteq> CHR ''K''" "d \<noteq> CHR ''S''" "d \<noteq> CHR ''/''" "d \<noteq> CHR ''U''" "d \<noteq> CHR ''$''"
    "d \<noteq> CHR ''H''" "d \<noteq> CHR ''M''" "d \<noteq> CHR ''.''" "d \<noteq> CHR '',''"
  using assms unfolding isDigit_def by auto

lemma digit_not_space: "isDigit d \<Longrightarrow> \<not> isSpace d"
  unfolding isDigit_def isSpace_def by auto

lemma digit_upper: "isDigit d \<Longrightarrow> toUpperChar d = d"
  by (erule digit_cases) (simp_all add: toUpperChar_def lower_letters_def upper_letters_def)

lemma digit_num: "isDigit d \<Longrightarrow> isNumChar d"
  by (simp add: isNumChar_def)

lemma kes_heads: "t \<in> set kesTokens \<Longrightarrow> hd t = CHR ''K'' \<or> hd t = CHR ''S'' \<or> hd t = CHR ''/''"
  unfolding kesTokens_def by auto

lemma usd_heads: "t \<in> set usdTokens \<Longrightarrow> hd t = CHR ''U'' \<or> hd t = CHR ''$''"
  unfolding usdTokens_def by auto

lemma digits_no_kes_heads:
  assumes "list_all isDigit ds"
  shows "\<forall>c \<in> set ds. \<forall>t \<in> set kesTokens. t \<noteq> [] \<longrightarrow> hd t \<noteq> c"
proof (intro ballI impI)
  fix c t assume c: "c \<in> set ds" and t: "t \<in> set kesTokens"
  from c assms have "isDigit c" by (simp add: list_all_iff)
  from digit_neq[OF this] kes_heads[OF t] show "hd t \<noteq> c" by auto
qed

lemma digits_no_usd_heads:
  assumes "list_all isDigit ds"
  shows "\<forall>c \<in> set ds. \<forall>t \<in> set usdTokens. t \<noteq> [] \<longrightarrow> hd t \<noteq> c"
proof (intro ballI impI)
  fix c t assume c: "c \<in> set ds" and t: "t \<in> set usdTokens"
  from c assms have "isDigit c" by (simp add: list_all_iff)
  from digit_neq[OF this] usd_heads[OF t] show "hd t \<noteq> c" by auto
qed

lemma suffix_kes: "priceSuffix S \<Longrightarrow> removeTokens kesTokens S = S"
  unfolding priceSuffix_def by (elim disjE) (simp_all add: kesTokens_def)

lemma suffix_usd: "priceSuffix S \<Longrightarrow> removeTokens usdTokens S = S"
  unfolding priceSuffix_def by (elim disjE) (simp_all add: usdTokens_def)

lemma kes_digits_suffix:
  assumes "list_all isDigit ds" "priceSuffix S"
  shows "removeTokens kesTokens (ds @ S) = ds @ S"
  using removeTokens_skip[OF digits_no_kes_heads[OF assms(1)], of S] suffix_kes[OF assms(2)] by simp

lemma usd_digits_suffix:
  assumes "list_all isDigit ds" "priceSuffix S"
  shows "removeTokens usdTokens (ds @ S) = ds @ S"
  using removeTokens_skip[OF digits_no_usd_heads[OF assms(1)], of S] suffix_usd[OF assms(2)] by simp

lemma residue_heads: "residue X \<Longrightarrow> \<forall>c \<in> set X. \<forall>t \<in> set usdTokens. t \<noteq> [] \<longrightarrow> hd t \<noteq> c"
  unfolding residue_def by (elim disjE) (simp_all add: usdTokens_def)

lemma residue_chars:
  "residue X \<Longrightarrow> CHR ''U'' \<notin> set X \<and> CHR ''$'' \<notin> set X \<and> CHR ''M'' \<notin> set X \<and> CHR ''K'' \<notin> set X
     \<and> list_all (\<lambda>c. \<not> isNumChar c) X \<and> list_all (\<lambda>c. \<not> isSpace c) X"
  unfolding residue_def by (elim disjE) (simp_all add: isNumChar_def isDigit_def isSpace_def)

lemma suffix_chars:
  "priceSuffix S \<Longrightarrow> CHR ''U'' \<notin> set S \<and> CHR ''$'' \<notin> set S
     \<and> list_all (\<lambda>c. \<not> isNumChar c) S \<and> list_all (\<lambda>c. \<not> isSpace c) S"
  unfolding priceSuffix_def by (elim disjE) (simp_all add: isNumChar_def isDigit_def isSpace_def)

lemma digits_chars:
  assumes "list_all isDigit ds"
  shows "CHR ''U'' \<notin> set ds" "CHR ''$'' \<notin> set ds" "CHR ''M'' \<notin> set ds" "CHR ''K'' \<notin> set ds"
    "list_all isNumChar ds" "list_all (\<lambda>c. \<not> isSpace c) ds"
proof -
  have d: "\<forall>c \<in> set ds. isDigit c" using assms by (simp add: list_all_iff)
  have nd: "\<not> isDigit CHR ''U''" "\<not> isDigit CHR ''$''" "\<not> isDigit CHR ''M''" "\<not> isDigit CHR ''K''"
    by (simp_all add: isDigit_def)
  show "CHR ''U'' \<notin> set ds" using d nd(1) by blast
  show "CHR ''$'' \<notin> set ds" using d nd(2) by blast
  show "CHR ''M'' \<notin> set ds" using d nd(3) by blast
  show "CHR ''K'' \<notin> set ds" using d nd(4) by blast
  show "list_all isNumChar ds" using d by (simp add: list_all_iff digit_num)
  show "list_all (\<lambda>c. \<not> isSpace c) ds" using d by (simp add: list_all_iff digit_not_space)
qed

lemma usd_letters:
  assumes "residue X" "list_all isDigit ds" "priceSuffix S"
  shows "removeTokens usdTokens (X @ ds @ S) = X @ ds @ S"
    and "\<not> hasToken usdTokens (X @ ds @ S)"
proof -
  show "removeTokens usdTokens (X @ ds @ S) = X @ ds @ S"
    using removeTokens_skip[OF residue_heads[OF assms(1)], of "ds @ S"]
      usd_digits_suffix[OF assms(2,3)] by simp
  have "CHR ''U'' \<notin> set (X @ ds @ S)" "CHR ''$'' \<notin> set (X @ ds @ S)"
    using residue_chars[OF assms(1)] suffix_chars[OF assms(3)] digits_chars(1,2)[OF assms(2)]
    by simp_all
  then show "\<not> hasToken usdTokens (X @ ds @ S)"
    by (simp add: hasToken_def usdTokens_def includesStr_head)
qed

lemma dropWhile_none: "list_all (\<lambda>c. \<not> P c) s \<Longrightarrow> dropWhile P s = s"
  by (cases s) simp_all

lemma trim_nospace: "list_all (\<lambda>c. \<not> isSpace c) s \<Longrightarrow> trim s = s"
  by (simp add: trim_def dropWhile_none)

lemma shape_nospace:
  assumes "residue X" "list_all isDigit ds" "priceSuffix S"
  shows "trim (X @ ds @ S) = X @ ds @ S"
  using residue_chars[OF assms(1)] digits_chars(6)[OF assms(2)] suffix_chars[OF assms(3)]
  by (intro trim_nospace) simp

lemma after_kes:
  assumes "residue X" "list_all isDigit ds" "priceSuffix S"
    and "removeTokens kesTokens t = X @ ds @ S"
  shows "trim (removeTokens usdTokens (removeTokens kesTokens t)) = X @ ds @ S"
    and "\<not> hasToken usdTokens (removeTokens kesTokens t)"
  using usd_letters[OF assms(1-3)] shape_nospace[OF assms(1-3)] assms(4) by simp_all

lemma clean_shape:
  assumes M: "M \<in> set ([] # kesTokens @ usdTokens)"
    and ds: "list_all isDigit ds" "ds \<noteq> []" and S: "priceSuffix S"
  shows "\<exists>X. residue X
           \<and> trim (removeTokens usdTokens (removeTokens kesTokens (M @ ds @ S))) = X @ ds @ S
           \<and> hasToken usdTokens (removeTokens kesTokens (M @ ds @ S)) = (M \<in> set usdTokens)"
proof -
  obtain d ds' where dd: "ds = d # ds'" using ds(2) by (cases ds) auto
  have d: "isDigit d" using ds(1) dd by simp
  note dn = digit_neq[OF d]
  have r: "removeTokens kesTokens (d # ds' @ S) = d # ds' @ S"
    using kes_digits_suffix[OF ds(1) S] dd by simp
  have u: "removeTokens usdTokens (d # ds' @ S) = d # ds' @ S"
    using usd_digits_suffix[OF ds(1) S] dd by simp
  have r0: "residue []" "residue ''ILLINGS''" "residue ''ILLING''" by (simp_all add: residue_def)
  have kes: ?thesis if k: "removeTokens kesTokens (M @ ds @ S) = X @ ds @ S" and X: "residue X"
    and nu: "M \<notin> set usdTokens" for X
    using after_kes[OF X ds(1) S k] X nu by blast
  have usd: ?thesis if k: "removeTokens kesTokens (M @ ds @ S) = M @ ds @ S"
    and mu: "M \<in> set usdTokens" and um: "removeTokens usdTokens (M @ ds @ S) = ds @ S"
    and h: "hasToken usdTokens (M @ ds @ S)"
  proof -
    have "trim (ds @ S) = ds @ S" using shape_nospace[OF r0(1) ds(1) S] by simp
    then show ?thesis using k mu um h r0(1) by (intro exI[of _ "[]"]) simp
  qed
  from M have "M = [] \<or> M = ''KSH'' \<or> M = ''KES'' \<or> M = ''SH'' \<or> M = ''/=''
      \<or> M = ''SHILLINGS'' \<or> M = ''SHILLING'' \<or> M = ''USD'' \<or> M = ''$''"
    by (simp add: kesTokens_def usdTokens_def)
  then consider "M = []" | "M = ''KSH''" | "M = ''KES''" | "M = ''SH''" | "M = ''/=''"
    | "M = ''SHILLINGS''" | "M = ''SHILLING''" | "M = ''USD''" | "M = ''$''"
    by (elim disjE) simp_all
  then show ?thesis
  proof cases
    case 1
    show ?thesis
      by (rule kes[of "[]"]) (simp_all del: removeTokens.simps add: 1 dd r r0 usdTokens_def)
  next
    case 2
    have "removeTokens kesTokens (''KSH'' @ d # ds' @ S) = removeTokens kesTokens (d # ds' @ S)"
      by (simp add: kesTokens_def)
    then show ?thesis
      by (intro kes[of "[]"]) (simp_all del: removeTokens.simps add: 2 dd r r0 usdTokens_def)
  next
    case 3
    have "removeTokens kesTokens (''KES'' @ d # ds' @ S) = removeTokens kesTokens (d # ds' @ S)"
      by (simp add: kesTokens_def)
    then show ?thesis
      by (intro kes[of "[]"]) (simp_all del: removeTokens.simps add: 3 dd r r0 usdTokens_def)
  next
    case 4
    have "removeTokens kesTokens (''SH'' @ d # ds' @ S) = removeTokens kesTokens (d # ds' @ S)"
      by (simp add: kesTokens_def)
    then show ?thesis
      by (intro kes[of "[]"]) (simp_all del: removeTokens.simps add: 4 dd r r0 usdTokens_def)
  next
    case 5
    have "removeTokens kesTokens (''/='' @ d # ds' @ S) = removeTokens kesTokens (d # ds' @ S)"
      by (simp add: kesTokens_def)
    then show ?thesis
      by (intro kes[of "[]"]) (simp_all del: removeTokens.simps add: 5 dd r r0 usdTokens_def)
  next
    case 6
    have "removeTokens kesTokens (''SHILLINGS'' @ d # ds' @ S)
        = ''ILLINGS'' @ removeTokens kesTokens (d # ds' @ S)"
      using dn by (simp add: kesTokens_def)
    then show ?thesis
      by (intro kes[of "''ILLINGS''"]) (simp_all del: removeTokens.simps add: 6 dd r r0 usdTokens_def)
  next
    case 7
    have "removeTokens kesTokens (''SHILLING'' @ d # ds' @ S)
        = ''ILLING'' @ removeTokens kesTokens (d # ds' @ S)"
      using dn by (simp add: kesTokens_def)
    then show ?thesis
      by (intro kes[of "''ILLING''"]) (simp_all del: removeTokens.simps add: 7 dd r r0 usdTokens_def)
  next
    case 8
    have a: "removeTokens kesTokens (''USD'' @ d # ds' @ S)
        = ''USD'' @ removeTokens kesTokens (d # ds' @ S)"
      using dn by (simp add: kesTokens_def)
    have b: "removeTokens usdTokens (''USD'' @ d # ds' @ S) = removeTokens usdTokens (d # ds' @ S)"
      by (simp add: usdTokens_def)
    have c: "hasToken usdTokens (''USD'' @ d # ds' @ S)"
      by (simp add: hasToken_def usdTokens_def)
    show ?thesis
    proof (rule usd)
      show "removeTokens kesTokens (M @ ds @ S) = M @ ds @ S"
        using a r by (simp del: removeTokens.simps add: 8 dd)
      show "M \<in> set usdTokens"
        by (simp add: 8 usdTokens_def)
      show "removeTokens usdTokens (M @ ds @ S) = ds @ S"
        using b u by (simp del: removeTokens.simps add: 8 dd)
      show "hasToken usdTokens (M @ ds @ S)"
        using c by (simp add: 8 dd)
    qed
  next
    case 9
    have a: "removeTokens kesTokens (''$'' @ d # ds' @ S)
        = ''$'' @ removeTokens kesTokens (d # ds' @ S)"
      using dn by (simp add: kesTokens_def)
    have b: "removeTokens usdTokens (''$'' @ d # ds' @ S) = removeTokens usdTokens (d # ds' @ S)"
      by (simp add: usdTokens_def)
    have c: "hasToken usdTokens (''$'' @ d # ds' @ S)"
      by (simp add: hasToken_def usdTokens_def)
    show ?thesis
    proof (rule usd)
      show "removeTokens kesTokens (M @ ds @ S) = M @ ds @ S"
        using a r by (simp del: removeTokens.simps add: 9 dd)
      show "M \<in> set usdTokens"
        by (simp add: 9 usdTokens_def)
      show "removeTokens usdTokens (M @ ds @ S) = ds @ S"
        using b u by (simp del: removeTokens.simps add: 9 dd)
      show "hasToken usdTokens (M @ ds @ S)"
        using c by (simp add: 9 dd)
    qed
  qed
qed

lemma filter_dropWhile: "\<forall>c. Q c \<longrightarrow> \<not> P c \<Longrightarrow> filter P (dropWhile Q xs) = filter P xs"
  by (induction xs) auto

lemma filter_trim:
  assumes "\<forall>c. isSpace c \<longrightarrow> \<not> P c"
  shows "filter P (trim xs) = filter P xs"
proof -
  have "filter P (trim xs) = rev (filter P (dropWhile isSpace (rev (dropWhile isSpace xs))))"
    by (simp add: trim_def rev_filter)
  also have "\<dots> = rev (filter P (rev (dropWhile isSpace xs)))"
    by (simp only: filter_dropWhile[OF assms])
  also have "\<dots> = filter P (dropWhile isSpace xs)"
    by (simp add: rev_filter)
  also have "\<dots> = filter P xs"
    by (rule filter_dropWhile[OF assms])
  finally show ?thesis .
qed

lemma space_upper:
  assumes "isSpace c"
  shows "toUpperChar c = c"
proof -
  from assms have "c = CHR 0x09 \<or> c = CHR 0x0A \<or> c = CHR 0x0B \<or> c = CHR 0x0C
      \<or> c = CHR 0x0D \<or> c = CHR '' ''"
    by (simp add: isSpace_def)
  then show ?thesis
    by (elim disjE) (simp_all add: toUpperChar_def lower_letters_def upper_letters_def)
qed

lemma upper_trim:
  "filter (\<lambda>c. c \<noteq> CHR '','' \<and> \<not> isSpace c) (toUpperCase (trim x))
     = filter (\<lambda>c. c \<noteq> CHR '','' \<and> \<not> isSpace c) (toUpperCase x)"
proof -
  have "\<forall>c. isSpace c \<longrightarrow>
      \<not> ((\<lambda>c. c \<noteq> CHR '','' \<and> \<not> isSpace c) \<circ> toUpperChar) c"
    by (simp add: space_upper)
  then show ?thesis
    unfolding toUpperCase_def filter_map by (simp only: filter_trim)
qed

lemma body_filter:
  "list_all (\<lambda>c. isDigit c \<or> c = CHR '','' \<or> isSpace c) body \<Longrightarrow>
     filter (\<lambda>c. c \<noteq> CHR '','' \<and> \<not> isSpace c) (toUpperCase body) = filter isDigit body"
proof (induction body)
  case Nil
  then show ?case by (simp add: toUpperCase_def)
next
  case (Cons c body)
  then have ih: "filter (\<lambda>c. c \<noteq> CHR '','' \<and> \<not> isSpace c) (toUpperCase body) = filter isDigit body"
    by simp
  from Cons.prems have "isDigit c \<or> c = CHR '','' \<or> isSpace c" by simp
  then show ?case
  proof (elim disjE)
    assume d: "isDigit c"
    then show ?thesis
      using ih digit_neq(9)[OF d] digit_not_space[OF d] by (simp add: toUpperCase_def digit_upper)
  next
    assume c: "c = CHR '',''"
    have "toUpperChar CHR '','' = CHR '',''"
      by (simp add: toUpperChar_def lower_letters_def upper_letters_def)
    moreover have "\<not> isDigit CHR '',''" by (simp add: isDigit_def)
    ultimately show ?thesis using ih c by (simp add: toUpperCase_def)
  next
    assume s: "isSpace c"
    then have "\<not> isDigit c" using digit_not_space by blast
    then show ?thesis using ih s by (simp add: toUpperCase_def space_upper)
  qed
qed

lemma marker_filter:
  "M \<in> set ([] # kesTokens @ usdTokens) \<Longrightarrow>
     filter (\<lambda>c. c \<noteq> CHR '','' \<and> \<not> isSpace c) M = M"
  by (auto simp: kesTokens_def usdTokens_def isSpace_def)

lemma suffix_filter:
  "priceSuffix S \<Longrightarrow> filter (\<lambda>c. c \<noteq> CHR '','' \<and> \<not> isSpace c) S = S"
  by (auto simp: priceSuffix_def isSpace_def)

lemma shape_filter:
  assumes "toUpperCase marker \<in> set ([] # kesTokens @ usdTokens)"
    and "priceBody body" and "priceSuffix (toUpperCase letter)"
  shows "filter (\<lambda>c. c \<noteq> CHR '','' \<and> \<not> isSpace c) (toUpperCase (trim (marker @ body @ letter)))
     = toUpperCase marker @ filter isDigit body @ toUpperCase letter"
proof -
  have "toUpperCase (marker @ body @ letter)
      = toUpperCase marker @ toUpperCase body @ toUpperCase letter"
    by (simp add: toUpperCase_def)
  then show ?thesis
    using marker_filter[OF assms(1)] suffix_filter[OF assms(3)] body_filter[of body] assms(2)
    by (simp add: upper_trim priceBody_def)
qed

lemma numMatch_shape:
  assumes X: "residue X" and ds: "list_all isDigit ds" "ds \<noteq> []" and S: "priceSuffix S"
  shows "numMatch (X @ ds @ S) = Some ds"
proof -
  obtain d ds' where dd: "ds = d # ds'" using ds(2) by (cases ds) auto
  have d: "isNumChar d" using ds(1) dd by (simp add: digit_num)
  have x: "\<forall>c \<in> set X. \<not> isNumChar c"
    using residue_chars[OF X] by (simp add: list_all_iff)
  have "dropWhile (\<lambda>c. \<not> isNumChar c) (X @ ds @ S) = ds @ S"
    using x d dd by (simp add: dropWhile_append2)
  moreover have "takeWhile isNumChar (ds @ S) = ds"
  proof -
    have n: "\<forall>c \<in> set ds. isNumChar c"
      using digits_chars(5)[OF ds(1)] by (simp add: list_all_iff)
    have "takeWhile isNumChar S = []"
      using S by (auto simp: priceSuffix_def isNumChar_def isDigit_def)
    with n show ?thesis by (simp add: takeWhile_append2)
  qed
  ultimately show ?thesis using dd by (simp add: numMatch_def)
qed

lemma parseFloat_digits:
  assumes "list_all isDigit ds" "ds \<noteq> []"
  shows "parseFloat ds = toDouble (of_nat (digitsVal ds))"
proof -
  have a: "\<forall>c \<in> set ds. isDigit c" using assms(1) by (simp add: list_all_iff)
  then have t: "takeWhile isDigit ds = ds" and d: "dropWhile isDigit ds = []" by simp_all
  show ?thesis
    unfolding parseFloat_def Let_def t d using assms(2) by (simp add: digitsVal_def)
qed

lemma suffix_letters:
  assumes X: "residue X" and ds: "list_all isDigit ds" and S: "priceSuffix S"
  shows "CHR ''M'' \<in> set (X @ ds @ S) \<longleftrightarrow> S = ''M''"
    and "CHR ''M'' \<notin> set (X @ ds @ S) \<Longrightarrow> CHR ''K'' \<in> set (X @ ds @ S) \<longleftrightarrow> S = ''K''"
proof -
  have x: "CHR ''M'' \<notin> set X" "CHR ''K'' \<notin> set X" using residue_chars[OF X] by simp_all
  note d = digits_chars(3,4)[OF ds]
  show "CHR ''M'' \<in> set (X @ ds @ S) \<longleftrightarrow> S = ''M''"
    using x d S by (auto simp: priceSuffix_def)
  show "CHR ''K'' \<in> set (X @ ds @ S) \<longleftrightarrow> S = ''K''"
    using x d S by (auto simp: priceSuffix_def)
qed

lemma mul_nat:
  assumes "n * k < 2 ^ 53" "0 < k"
  shows "mulN (toDouble (of_nat n)) (Fin (of_nat k)) = Fin (of_nat (n * k))"
proof -
  have "n \<le> n * k" using assms(2) by (cases k) simp_all
  then have "n < 2 ^ 53" using assms(1) by (rule le_less_trans)
  then have "toDouble (of_nat n) = Fin (of_nat n)" by (rule toDouble_nat)
  moreover have "toDouble (of_nat (n * k)) = Fin (of_nat (n * k))"
    using assms(1) by (rule toDouble_nat)
  ultimately show ?thesis by simp
qed

lemma parseAmount_shape:
  assumes X: "residue X" and ds: "list_all isDigit ds" "ds \<noteq> []" and S: "priceSuffix S"
    and b: "digitsVal ds * multiplier S < 2 ^ 53"
  shows "parseAmount (X @ ds @ S) = Some (Fin (of_nat (digitsVal ds * multiplier S)))"
proof -
  note nm = numMatch_shape[OF X ds S]
  note pf = parseFloat_digits[OF ds]
  note sl = suffix_letters[OF X ds(1) S]
  from S consider "S = ''M''" | "S = ''K''" | "S = []" by (auto simp: priceSuffix_def)
  then show ?thesis
  proof cases
    case 1
    then have m: "multiplier S = 1000000" by (simp add: multiplier_def)
    have inM: "CHR ''M'' \<in> set (X @ ds @ S)" using sl(1) 1 by simp
    have "mulN (toDouble (of_nat (digitsVal ds))) (Fin (of_nat 1000000))
        = Fin (of_nat (digitsVal ds * 1000000))"
      using b unfolding m by (intro mul_nat) simp_all
    then have "mulN (toDouble (of_nat (digitsVal ds))) (Fin 1000000)
        = Fin (of_nat (digitsVal ds * multiplier S))"
      by (simp add: m)
    then show ?thesis
      unfolding parseAmount_def nm Let_def using inM by (simp add: pf)
  next
    case 2
    then have m: "multiplier S = 1000" by (simp add: multiplier_def)
    have nM: "CHR ''M'' \<notin> set (X @ ds @ S)" using sl(1) 2 by simp
    have inK: "CHR ''K'' \<in> set (X @ ds @ S)" using sl(2)[OF nM] 2 by simp
    have "mulN (toDouble (of_nat (digitsVal ds))) (Fin (of_nat 1000))
        = Fin (of_nat (digitsVal ds * 1000))"
      using b unfolding m by (intro mul_nat) simp_all
    then have "mulN (toDouble (of_nat (digitsVal ds))) (Fin 1000)
        = Fin (of_nat (digitsVal ds * multiplier S))"
      by (simp add: m)
    then show ?thesis
      unfolding parseAmount_def nm Let_def using nM inK by (simp add: pf)
  next
    case 3
    then have m: "multiplier S = 1" by (simp add: multiplier_def)
    have nM: "CHR ''M'' \<notin> set (X @ ds @ S)" using sl(1) 3 by simp
    have nK: "CHR ''K'' \<notin> set (X @ ds @ S)" using sl(2)[OF nM] 3 by simp
    have "toDouble (of_nat (digitsVal ds)) = Fin (of_nat (digitsVal ds))"
      using b unfolding m by (intro toDouble_nat) simp
    then have "toDouble (of_nat (digitsVal ds)) = Fin (of_nat (digitsVal ds * multiplier S))"
      by (simp add: m)
    then show ?thesis
      unfolding parseAmount_def nm Let_def using nM nK by (simp add: pf)
  qed
qed

lemma price_shape:
  assumes M: "toUpperCase marker \<in> set ([] # kesTokens @ usdTokens)"
    and B: "priceBody body" and S: "priceSuffix (toUpperCase letter)"
    and b: "denotedValue body * multiplier (toUpperCase letter) < 2 ^ 53"
  shows "normalizePrice numStr (Str (marker @ body @ letter)) t
     = \<lparr>amount = Some (convertAmount (detectedCurrency (toUpperCase marker)) t
                  (Fin (of_nat (denotedValue body * multiplier (toUpperCase letter))))),
        currency = t,
        original = Some (trim (marker @ body @ letter))\<rparr>"
proof -
  let ?ds = "filter isDigit body"
  have ds: "list_all isDigit ?ds" "?ds \<noteq> []"
    using B by (auto simp: priceBody_def list_all_iff list_ex_iff filter_empty_conv)
  have ne: "marker @ body @ letter \<noteq> []"
    using B by (auto simp: priceBody_def)
  obtain X where X: "residue X"
    and c: "trim (removeTokens usdTokens (removeTokens kesTokens
              (toUpperCase marker @ ?ds @ toUpperCase letter))) = X @ ?ds @ toUpperCase letter"
    and h: "hasToken usdTokens (removeTokens kesTokens
              (toUpperCase marker @ ?ds @ toUpperCase letter)) = (toUpperCase marker \<in> set usdTokens)"
    using clean_shape[OF M ds S] by blast
  have cp: "cleanPrice (trim (marker @ body @ letter))
      = (X @ ?ds @ toUpperCase letter, detectedCurrency (toUpperCase marker))"
    unfolding cleanPrice_def Let_def shape_filter[OF M B S] c h detectedCurrency_def by simp
  have pa: "parseAmount (X @ ?ds @ toUpperCase letter)
      = Some (Fin (of_nat (denotedValue body * multiplier (toUpperCase letter))))"
    using parseAmount_shape[OF X ds S] b by (simp add: denotedValue_def)
  show ?thesis
    using ne by (simp add: normalizePrice_def Let_def cp pa)
qed

subsection \<open>Exact products and examples\<close>

lemma toDouble_dyadic:
  assumes "k < 2 ^ 53" "j \<le> 1022"
  shows "toDouble (of_nat k / 2 ^ j) = Fin (of_nat k / 2 ^ j)"
proof (cases "k = 0")
  case True
  then show ?thesis by (simp add: toDouble_def)
next
  case False
  define x :: rat where "x = of_nat k / 2 ^ j"
  define K where "K = ilog2 x"
  define e where "e = K - 52"
  define s where "s = nat (52 - K - int j)"
  have pj: "pow2 (- int j) = 1 / 2 ^ j"
    by (simp add: pow2_powi power_int_minus inverse_eq_divide)
  have xk: "x = of_nat k * pow2 (- int j)" by (simp add: pj x_def)
  have pos: "0 < x" using False by (simp add: x_def)
  from ilog2_bounds[OF pos] have b: "pow2 K \<le> x" "x < pow2 (K + 1)" by (auto simp: K_def)
  have "(of_nat k :: rat) < of_nat (2 ^ 53)" using assms(1) by (simp only: of_nat_less_iff)
  then have "(of_nat k :: rat) < pow2 53" by (simp add: pow2_def)
  then have "x < pow2 53 * pow2 (- int j)"
    unfolding xk using pow2_pos[of "- int j"] by (simp only: mult_strict_right_mono)
  then have up: "x < pow2 (53 - int j)" by (simp add: pow2_add[symmetric])
  with b(1) have "pow2 K < pow2 (53 - int j)" by simp
  then have K1: "K < 53 - int j" by (simp only: pow2_less_iff)
  have "(1::rat) \<le> of_nat k" using False by simp
  then have "1 * pow2 (- int j) \<le> x"
    unfolding xk using pow2_pos[of "- int j"] by (simp only: mult_right_mono less_imp_le)
  with b(2) have "pow2 (- int j) < pow2 (K + 1)" by simp
  then have K0: "- int j \<le> K" by (simp add: pow2_less_iff)
  have em: "max (K - 52) (- 1074) = e" using K0 assms(2) by (simp add: e_def)
  have si: "int s = 52 - K - int j" using K1 by (simp add: s_def)
  have "- int j = int s + e" by (simp add: si e_def)
  then have h: "pow2 (- int j) = 2 ^ s * pow2 e"
    by (simp only: pow2_add pow2_nat)
  have "x = of_nat k * (2 ^ s * pow2 e)"
    unfolding xk by (simp only: h)
  also have "\<dots> = of_int (int k * 2 ^ s) * pow2 e"
    by simp
  finally have xe: "x = of_int (int k * 2 ^ s) * pow2 e" .
  have pe: "pow2 e \<noteq> 0" using pow2_pos[of e] by simp
  have "x / pow2 e = of_int (int k * 2 ^ s)"
    using pe by (subst xe) simp
  then have re: "roundEven (x / pow2 e) = int k * 2 ^ s"
    by (simp only: roundEven_int)
  have r: "of_int (roundEven (x / pow2 e)) * pow2 e = x"
    unfolding re by (rule xe[symmetric])
  have "pow2 (53 - int j) < pow2 1024" by (simp add: pow2_less_iff)
  with up have big: "\<not> pow2 1024 \<le> x" by simp
  have nz: "x \<noteq> 0" using pos by simp
  have ab: "\<bar>x\<bar> = x" using pos by simp
  have "toDouble x = Fin x"
    unfolding toDouble_def Let_def ab K_def[symmetric] em r using pos big nz by simp
  then show ?thesis by (simp only: x_def)
qed

lemma usd_rate: "USD_TO_KES_RATE = Fin (625 / 4)"
  unfolding USD_TO_KES_RATE_def by (rule rate_usd)

lemma kes_rate: "KES_TO_USD_RATE = Fin (7378697629483821 / 1152921504606846976)"
  unfolding KES_TO_USD_RATE_def by (rule rate_kes)

lemma usd_to_kes_nat:
  assumes "n * 625 < 2 ^ 53"
  shows "convertAmount ''USD'' ''KES'' (Fin (of_nat n))
     = Fin (of_int \<lfloor>(of_nat n :: rat) * (15625 / 100) + 1 / 2\<rfloor>)"
proof -
  have "toDouble (of_nat (n * 625) / 2 ^ 2) = Fin (of_nat (n * 625) / 2 ^ 2)"
    using assms by (intro toDouble_dyadic) simp_all
  then have "mulN (Fin (of_nat n)) (Fin (625 / 4)) = Fin (of_nat n * (625 / 4))"
    by simp
  then show ?thesis
    by (simp add: convertAmount_def usd_rate)
qed

lemmas upper_simps = toUpperCase_def toUpperChar_def lower_letters_def upper_letters_def

lemma digitVal_digits:
  "digitVal CHR ''0'' = 0" "digitVal CHR ''1'' = 1" "digitVal CHR ''2'' = 2"
  "digitVal CHR ''3'' = 3" "digitVal CHR ''4'' = 4" "digitVal CHR ''5'' = 5"
  "digitVal CHR ''6'' = 6" "digitVal CHR ''7'' = 7" "digitVal CHR ''8'' = 8"
  "digitVal CHR ''9'' = 9"
  by (simp_all add: digitVal_def)

lemma floor_half: "\<lfloor>(of_int k :: rat) + 1 / 2\<rfloor> = k"
  by (rule floor_unique) simp_all

lemma roundN_nat: "roundN (Fin (of_nat n)) = Fin (of_nat n)"
  using floor_half[of "int n"] by simp










subsection \<open>Rounding errors of the conversion\<close>

lemma roundEven_error: "\<bar>of_int (roundEven x) - x\<bar> \<le> 1 / 2"
proof -
  have f: "of_int \<lfloor>x\<rfloor> \<le> x" "x < of_int \<lfloor>x\<rfloor> + 1" by linarith+
  show ?thesis
  proof (cases "x - of_int \<lfloor>x\<rfloor> < 1 / 2")
    case True
    then have "roundEven x = \<lfloor>x\<rfloor>" by (simp add: roundEven_def Let_def)
    then show ?thesis using f True by simp
  next
    case False
    show ?thesis
    proof (cases "1 / 2 < x - of_int \<lfloor>x\<rfloor>")
      case True
      with False have "roundEven x = \<lfloor>x\<rfloor> + 1" by (simp add: roundEven_def Let_def)
      then show ?thesis using f True by simp
    next
      case F2: False
      with False have h: "x - of_int \<lfloor>x\<rfloor> = 1 / 2" by simp
      have "roundEven x = \<lfloor>x\<rfloor> \<or> roundEven x = \<lfloor>x\<rfloor> + 1"
        using False F2 by (simp add: roundEven_def Let_def)
      then show ?thesis using h by auto
    qed
  qed
qed

lemma toDouble_error:
  assumes "pow2 (- 1022) \<le> x" "x < pow2 1023"
  shows "\<exists>y. toDouble x = Fin y \<and> \<bar>y - x\<bar> \<le> x / 2 ^ 53"
proof -
  define K where "K = ilog2 x"
  define e where "e = K - 52"
  define m where "m = roundEven (x / pow2 e)"
  define y where "y = of_int m * pow2 e"
  have pos: "0 < x" using assms(1) pow2_pos[of "- 1022"] by simp
  from ilog2_bounds[OF pos] have b: "pow2 K \<le> x" "x < pow2 (K + 1)" by (auto simp: K_def)
  have "pow2 (- 1022) < pow2 (K + 1)" using assms(1) b(2) by simp
  then have K0: "- 1022 \<le> K" by (simp add: pow2_less_iff)
  have em: "max (K - 52) (- 1074) = e" using K0 by (simp add: e_def)
  have pe: "0 < pow2 e" by (rule pow2_pos)
  have "K = e + 52" by (simp add: e_def)
  then have "pow2 K = pow2 e * pow2 52" by (simp only: pow2_add)
  then have pk: "pow2 e * 2 ^ 52 \<le> x" using b(1) by (simp add: pow2_def)
  have "\<bar>of_int m - x / pow2 e\<bar> \<le> 1 / 2" unfolding m_def by (rule roundEven_error)
  then have "\<bar>of_int m - x / pow2 e\<bar> * pow2 e \<le> 1 / 2 * pow2 e"
    using pe by (simp only: mult_right_mono less_imp_le)
  moreover have "\<bar>of_int m - x / pow2 e\<bar> * pow2 e = \<bar>y - x\<bar>"
  proof -
    have "\<bar>of_int m - x / pow2 e\<bar> * pow2 e = \<bar>(of_int m - x / pow2 e) * pow2 e\<bar>"
      using pe by (simp add: abs_mult)
    also have "(of_int m - x / pow2 e) * pow2 e = y - x"
      using pe by (simp add: y_def field_simps)
    finally show ?thesis .
  qed
  ultimately have err: "\<bar>y - x\<bar> \<le> pow2 e / 2" by simp
  have "pow2 e / 2 \<le> x / 2 ^ 53" using pk by (simp add: field_simps)
  with err have bound: "\<bar>y - x\<bar> \<le> x / 2 ^ 53" by simp
  have "x / 2 ^ 53 \<le> x" using pos by (simp add: field_simps)
  with bound have "\<bar>y - x\<bar> \<le> x" by (rule order_trans)
  then have "y \<le> x + x" by linarith
  also have "\<dots> < pow2 1023 + pow2 1023" using assms(2) by simp
  also have "\<dots> = pow2 1024" by (simp add: pow2_def)
  finally have fin: "\<not> pow2 1024 \<le> y" by simp
  have nz: "x \<noteq> 0" and ab: "\<bar>x\<bar> = x" using pos by simp_all
  have "toDouble x = Fin y"
    unfolding toDouble_def Let_def ab K_def[symmetric] em m_def[symmetric] y_def[symmetric]
    using pos fin nz by simp
  with bound show ?thesis by blast
qed

lemma half_up_margin:
  fixes n :: nat
  defines "k \<equiv> \<lfloor>(of_nat n :: rat) * (64 / 10000) * 100 + 1 / 2\<rfloor>"
  shows "of_int k - 1 / 2 + 1 / 50 \<le> (of_nat n :: rat) * (16 / 25)"
    and "(of_nat n :: rat) * (16 / 25) \<le> of_int k + 1 / 2 - 1 / 50"
proof -
  have e: "(of_nat n :: rat) * (64 / 10000) * 100 + 1 / 2 = of_int (32 * int n + 25) / 50"
    by simp
  have "of_int k \<le> (of_int (32 * int n + 25) / 50 :: rat)"
    and "(of_int (32 * int n + 25) / 50 :: rat) < of_int k + 1"
    unfolding k_def e by linarith+
  then have "(of_int (50 * k) :: rat) \<le> of_int (32 * int n + 25)"
    and "(of_int (32 * int n + 25) :: rat) < of_int (50 * k + 50)"
    by (simp_all add: field_simps)
  then have "50 * k \<le> 32 * int n + 25" "32 * int n + 25 < 50 * k + 50"
    by (simp_all only: of_int_le_iff of_int_less_iff)
  then have "50 * k + 1 \<le> 32 * int n + 25" "32 * int n + 25 \<le> 50 * k + 49"
    by presburger+
  then have "(of_int (50 * k + 1) :: rat) \<le> of_int (32 * int n + 25)"
    and "(of_int (32 * int n + 25) :: rat) \<le> of_int (50 * k + 49)"
    by (simp_all only: of_int_le_iff)
  then show "of_int k - 1 / 2 + 1 / 50 \<le> (of_nat n :: rat) * (16 / 25)"
    and "(of_nat n :: rat) * (16 / 25) \<le> of_int k + 1 / 2 - 1 / 50"
    by (simp_all add: field_simps)
qed

lemma rel_err:
  fixes x y :: rat
  assumes "\<bar>y - x\<bar> \<le> x / 2 ^ 53"
  shows "x * (1 - 1 / 2 ^ 53) \<le> y" "y \<le> x * (1 + 1 / 2 ^ 53)"
proof -
  have a: "x * (1 - 1 / 2 ^ 53) = x - x / 2 ^ 53" "x * (1 + 1 / 2 ^ 53) = x + x / 2 ^ 53"
    by (simp_all add: algebra_simps)
  from assms have "y - x \<le> x / 2 ^ 53" "x - y \<le> x / 2 ^ 53"
    by (simp_all only: abs_le_iff minus_diff_eq)
  then show "x * (1 - 1 / 2 ^ 53) \<le> y" "y \<le> x * (1 + 1 / 2 ^ 53)"
    unfolding a by linarith+
qed

lemma kes_to_usd_nat:
  assumes "n \<le> 10 ^ 12"
  shows "convertAmount ''KES'' ''USD'' (Fin (of_nat n))
     = toDouble (of_int \<lfloor>(of_nat n :: rat) * (64 / 10000) * 100 + 1 / 2\<rfloor> / 100)"
proof (cases "n = 0")
  case True
  have "toDouble 0 = Fin 0" by (simp add: toDouble_def)
  then show ?thesis
    using True by (simp add: convertAmount_def kes_rate)
next
  case False
  define N :: rat where "N = of_nat n"
  define r :: rat where "r = 7378697629483821 / 1152921504606846976"
  define cp :: rat where "cp = 1 + 1 / 2 ^ 53"
  define cm :: rat where "cm = 1 - 1 / 2 ^ 53"
  define A where "A = r * cp * 100 * cp"
  define B where "B = r * cm * 100 * cm"
  define k where "k = \<lfloor>N * (64 / 10000) * 100 + 1 / 2\<rfloor>"
  have r0: "0 \<le> r" and cp0: "0 \<le> cp" and cm0: "0 \<le> cm" and cm1: "1 / 2 \<le> cm" and cp2: "cp \<le> 2"
    by (simp_all add: r_def cp_def cm_def)
  have N1: "1 \<le> N" using False by (simp add: N_def)
  have "N \<le> of_nat (10 ^ 12)" unfolding N_def using assms by (simp only: of_nat_le_iff)
  then have N2: "N \<le> 1000000000000" by simp
  have N0: "0 \<le> N" using N1 by simp
  have rlo: "pow2 (- 1022) \<le> r / 2" and rhi: "1000000000000 * r * 2 * 100 < pow2 1023"
    by (simp_all add: pow2_def r_def)
  have Nr: "r \<le> N * r" "N * r \<le> 1000000000000 * r"
    using mult_right_mono[OF N1 r0] mult_right_mono[OF N2 r0] by simp_all
  have x1lo: "pow2 (- 1022) \<le> N * r" using rlo Nr(1) r0 by linarith
  have x1hi: "N * r < pow2 1023" using rhi Nr(2) r0 by linarith
  obtain y1 where y1: "toDouble (N * r) = Fin y1" and e1: "\<bar>y1 - N * r\<bar> \<le> N * r / 2 ^ 53"
    using toDouble_error[OF x1lo x1hi] by blast
  have b1: "N * r * cm \<le> y1" "y1 \<le> N * r * cp"
    using rel_err[OF e1] by (simp_all only: cm_def cp_def)
  have Nr0: "0 \<le> N * r" using N0 r0 by simp
  have "N * r * (1 / 2) \<le> N * r * cm" using cm1 Nr0 by (rule mult_left_mono)
  with b1(1) have y1lo: "N * r / 2 \<le> y1" by simp
  have "N * r * cp \<le> N * r * 2" using cp2 Nr0 by (rule mult_left_mono)
  with b1(2) have y1hi: "y1 \<le> N * r * 2" by simp
  have x2lo: "pow2 (- 1022) \<le> y1 * 100" using rlo Nr(1) y1lo r0 by linarith
  have x2hi: "y1 * 100 < pow2 1023" using rhi Nr(2) y1hi r0 by linarith
  obtain y2 where y2: "toDouble (y1 * 100) = Fin y2"
    and e2: "\<bar>y2 - y1 * 100\<bar> \<le> y1 * 100 / 2 ^ 53"
    using toDouble_error[OF x2lo x2hi] by blast
  have b2: "y1 * 100 * cm \<le> y2" "y2 \<le> y1 * 100 * cp"
    using rel_err[OF e2] by (simp_all only: cm_def cp_def)
  have "y1 * (100 * cp) \<le> N * r * cp * (100 * cp)"
    using b1(2) cp0 by (intro mult_right_mono) simp_all
  then have u1: "y1 * 100 * cp \<le> N * A" by (simp add: A_def mult.assoc)
  have "N * r * cm * (100 * cm) \<le> y1 * (100 * cm)"
    using b1(1) cm0 by (intro mult_right_mono) simp_all
  then have l1: "N * B \<le> y1 * 100 * cm" by (simp add: B_def mult.assoc)
  have dA: "0 \<le> A - 16 / 25" "1000000000000 * (A - 16 / 25) < 1 / 50"
    by (simp_all add: A_def r_def cp_def)
  have dB: "0 \<le> 16 / 25 - B" "1000000000000 * (16 / 25 - B) < 1 / 50"
    by (simp_all add: B_def r_def cm_def)
  have "N * (A - 16 / 25) \<le> 1000000000000 * (A - 16 / 25)"
    using N2 dA(1) by (rule mult_right_mono)
  then have u2: "N * A - N * (16 / 25) < 1 / 50" using dA(2) by (simp only: right_diff_distrib)
  have "N * (16 / 25 - B) \<le> 1000000000000 * (16 / 25 - B)"
    using N2 dB(1) by (rule mult_right_mono)
  then have l2: "N * (16 / 25) - N * B < 1 / 50" using dB(2) by (simp only: right_diff_distrib)
  have m: "of_int k - 1 / 2 + 1 / 50 \<le> N * (16 / 25)" "N * (16 / 25) \<le> of_int k + 1 / 2 - 1 / 50"
    unfolding k_def N_def by (rule half_up_margin)+
  have "of_int k \<le> y2 + 1 / 2" using m(1) l2 l1 b2(1) by linarith
  moreover have "y2 + 1 / 2 < of_int k + 1" using m(2) u2 u1 b2(2) by linarith
  ultimately have fl: "\<lfloor>y2 + 1 / 2\<rfloor> = k" by (rule floor_unique)
  have "mulN (mulN (Fin N) (Fin r)) (Fin 100) = Fin y2"
    by (simp add: y1 y2)
  then have "convertAmount ''KES'' ''USD'' (Fin N) = toDouble (of_int k / 100)"
    unfolding convertAmount_def kes_rate r_def[symmetric] by (simp add: fl)
  then show ?thesis by (simp only: N_def k_def)
qed

lemma ex_usd_1000:
  "normalizePrice numStr (Str ''$1000'') ''KES''
     = \<lparr>amount = Some (Fin 156250), currency = ''KES'', original = Some ''$1000''\<rparr>"
proof -
  have s: "normalizePrice numStr (Str (''$'' @ ''1000'' @ [])) ''KES''
     = \<lparr>amount = Some (convertAmount (detectedCurrency (toUpperCase ''$'')) ''KES''
                  (Fin (of_nat (denotedValue ''1000'' * multiplier (toUpperCase []))))),
        currency = ''KES'',
        original = Some (trim (''$'' @ ''1000'' @ []))\<rparr>"
    by (rule price_shape)
      (simp_all add: upper_simps kesTokens_def usdTokens_def priceBody_def priceSuffix_def
        isDigit_def isSpace_def denotedValue_def digitsVal_def digitVal_digits multiplier_def)
  have v: "denotedValue ''1000'' * multiplier (toUpperCase []) = 1000"
    by (simp add: denotedValue_def isDigit_def digitsVal_def digitVal_digits multiplier_def
        upper_simps)
  have d: "detectedCurrency (toUpperCase ''$'') = ''USD''"
    by (simp add: detectedCurrency_def usdTokens_def upper_simps)
  have f: "\<lfloor>(of_nat 1000 :: rat) * (15625 / 100) + 1 / 2\<rfloor> = 156250"
    by (rule floor_unique) simp_all
  have "convertAmount ''USD'' ''KES'' (Fin (of_nat 1000))
      = Fin (of_int \<lfloor>(of_nat 1000 :: rat) * (15625 / 100) + 1 / 2\<rfloor>)"
    by (rule usd_to_kes_nat) simp
  then have c: "convertAmount ''USD'' ''KES'' (Fin (of_nat 1000)) = Fin 156250"
    unfolding f by simp
  from s[unfolded v d] c show ?thesis
    by (simp add: trim_def isSpace_def)
qed

lemma ex_kes_156250:
  "normalizePrice numStr (Str ''KES 156250'') ''USD''
     = \<lparr>amount = Some (Fin 1000), currency = ''USD'', original = Some ''KES 156250''\<rparr>"
proof -
  have s: "normalizePrice numStr (Str (''KES'' @ '' 156250'' @ [])) ''USD''
     = \<lparr>amount = Some (convertAmount (detectedCurrency (toUpperCase ''KES'')) ''USD''
                  (Fin (of_nat (denotedValue '' 156250'' * multiplier (toUpperCase []))))),
        currency = ''USD'',
        original = Some (trim (''KES'' @ '' 156250'' @ []))\<rparr>"
    by (rule price_shape)
      (simp_all add: upper_simps kesTokens_def usdTokens_def priceBody_def priceSuffix_def
        isDigit_def isSpace_def denotedValue_def digitsVal_def digitVal_digits multiplier_def)
  have v: "denotedValue '' 156250'' * multiplier (toUpperCase []) = 156250"
    by (simp add: denotedValue_def isDigit_def digitsVal_def digitVal_digits multiplier_def
        upper_simps)
  have d: "detectedCurrency (toUpperCase ''KES'') = ''KES''"
    by (simp add: detectedCurrency_def usdTokens_def upper_simps)
  have f: "\<lfloor>(of_nat 156250 :: rat) * (64 / 10000) * 100 + 1 / 2\<rfloor> = 100000"
    by (rule floor_unique) simp_all
  have t: "toDouble (of_nat 1000) = Fin (of_nat 1000)"
    by (rule toDouble_nat) simp
  have "convertAmount ''KES'' ''USD'' (Fin (of_nat 156250)) = toDouble (of_int 100000 / 100)"
    unfolding f[symmetric] by (rule kes_to_usd_nat) simp
  then have c: "convertAmount ''KES'' ''USD'' (Fin (of_nat 156250)) = Fin 1000"
    using t by simp
  from s[unfolded v d] c show ?thesis
    by (simp add: trim_def isSpace_def)
qed

subsection \<open>The parsed amount and its conversion\<close>




text \<open>
  Claim C3. For price text of the shape above the resulting amount is the conversion,
  a function of source currency, target currency and parsed amount, applied to the
  denoted value. The conversion changes nothing when source and target currency are
  equal, and whether the amount is null does not depend on the target currency. The
  rate constants are the doubles 156.25 and the double nearest to 0.0064 (within
  \<open>2 ^ -53\<close> of it, relatively). From USD to KES a whole amount \<open>usd\<close> with
  \<open>usd * 625 < 2 ^ 53\<close> becomes \<open>usd * 156.25\<close> rounded to the nearest integer, a half
  going up. From KES to USD a whole amount \<open>kes\<close> up to \<open>10 ^ 12\<close> becomes the double
  nearest to the hundredth part of \<open>kes * 0.0064 * 100\<close> rounded to the nearest integer:
  the rounding errors of the two double multiplications never reach the integer that
  \<^verbatim>\<open>Math.round\<close> returns. The two examples of the claim hold.
\<close>

theorem price_conversion:
  "(list_all isAscii (marker @ body @ letter)
      \<and> toUpperCase marker \<in> set ([] # kesTokens @ usdTokens)
      \<and> priceBody body \<and> priceSuffix (toUpperCase letter)
      \<and> denotedValue body * multiplier (toUpperCase letter) < 2 ^ 53
    \<longrightarrow> amount (normalizePrice numStr (Str (marker @ body @ letter)) targetCurrency)
        = Some (convertAmount (detectedCurrency (toUpperCase marker)) targetCurrency
            (Fin (of_nat (denotedValue body * multiplier (toUpperCase letter))))))
   \<and> convertAmount targetCurrency targetCurrency a = a
   \<and> (amount (normalizePrice numStr priceStr targetCurrency) = None
        \<longleftrightarrow> amount (normalizePrice numStr priceStr otherCurrency) = None)
   \<and> USD_TO_KES_RATE = Fin (15625 / 100)
   \<and> KES_TO_USD_RATE = Fin (7378697629483821 / 1152921504606846976)
   \<and> \<bar>7378697629483821 / 1152921504606846976 - 64 / 10000\<bar> * 2 ^ 53 \<le> (64 / 10000 :: rat)
   \<and> (usd * 625 < 2 ^ 53
    \<longrightarrow> convertAmount ''USD'' ''KES'' (Fin (of_nat usd))
        = Fin (of_int \<lfloor>(of_nat usd :: rat) * (15625 / 100) + 1 / 2\<rfloor>))
   \<and> (kes \<le> 10 ^ 12
    \<longrightarrow> convertAmount ''KES'' ''USD'' (Fin (of_nat kes))
        = toDouble (of_int \<lfloor>(of_nat kes :: rat) * (64 / 10000) * 100 + 1 / 2\<rfloor> / 100))
   \<and> amount (normalizePrice numStr (Str ''$1000'') ''KES'') = Some (Fin 156250)
   \<and> amount (normalizePrice numStr (Str ''KES 156250'') ''USD'') = Some (Fin 1000)"
proof (intro conjI impI)
  assume "list_all isAscii (marker @ body @ letter)
      \<and> toUpperCase marker \<in> set ([] # kesTokens @ usdTokens)
      \<and> priceBody body \<and> priceSuffix (toUpperCase letter)
      \<and> denotedValue body * multiplier (toUpperCase letter) < 2 ^ 53"
  then have h: "toUpperCase marker \<in> set ([] # kesTokens @ usdTokens)"
      "priceBody body" "priceSuffix (toUpperCase letter)"
      "denotedValue body * multiplier (toUpperCase letter) < 2 ^ 53"
    by simp_all
  show "amount (normalizePrice numStr (Str (marker @ body @ letter)) targetCurrency)
        = Some (convertAmount (detectedCurrency (toUpperCase marker)) targetCurrency
            (Fin (of_nat (denotedValue body * multiplier (toUpperCase letter)))))"
    unfolding price_shape[OF h] by simp
next
  show "convertAmount targetCurrency targetCurrency a = a"
    by (simp add: convertAmount_def)
next
  show "amount (normalizePrice numStr priceStr targetCurrency) = None
        \<longleftrightarrow> amount (normalizePrice numStr priceStr otherCurrency) = None"
    by (simp add: normalizePrice_def Let_def)
next
  show "USD_TO_KES_RATE = Fin (15625 / 100)"
    using usd_rate by simp
next
  show "KES_TO_USD_RATE = Fin (7378697629483821 / 1152921504606846976)"
    by (rule kes_rate)
next
  show "\<bar>7378697629483821 / 1152921504606846976 - 64 / 10000\<bar> * 2 ^ 53 \<le> (64 / 10000 :: rat)"
    by simp
next
  assume "usd * 625 < 2 ^ 53"
  then show "convertAmount ''USD'' ''KES'' (Fin (of_nat usd))
        = Fin (of_int \<lfloor>(of_nat usd :: rat) * (15625 / 100) + 1 / 2\<rfloor>)"
    by (rule usd_to_kes_nat)
next
  assume "kes \<le> 10 ^ 12"
  then show "convertAmount ''KES'' ''USD'' (Fin (of_nat kes))
        = toDouble (of_int \<lfloor>(of_nat kes :: rat) * (64 / 10000) * 100 + 1 / 2\<rfloor> / 100)"
    by (rule kes_to_usd_nat)
next
  show "amount (normalizePrice numStr (Str ''$1000'') ''KES'') = Some (Fin 156250)"
    by (simp add: ex_usd_1000)
  show "amount (normalizePrice numStr (Str ''KES 156250'') ''USD'') = Some (Fin 1000)"
    by (simp add: ex_kes_156250)
qed

theorem price_conversion_witness:
  "amount (normalizePrice (\<lambda>n. []) (Str ''usd 2,000'') ''KES'') = Some (Fin 312500)
   \<and> convertAmount ''USD'' ''KES'' (Fin 2000) = Fin 312500
   \<and> convertAmount ''KES'' ''USD'' (Fin 312500) = Fin 2000"
proof -
  note t = price_conversion [where marker = "''usd''" and body = "'' 2,000''"
      and letter = "[]" and numStr = "\<lambda>n. []" and targetCurrency = "''KES''"
      and usd = 2000 and kes = 312500 and a = "Fin 0" and priceStr = Null
      and otherCurrency = "''USD''"]
  have a: "list_all isAscii (''usd'' @ '' 2,000'' @ [])"
    by (simp add: isAscii_def)
  have m: "toUpperCase ''usd'' \<in> set ([] # kesTokens @ usdTokens)"
    by (simp add: upper_simps kesTokens_def usdTokens_def)
  have b: "priceBody '' 2,000''"
    by (simp add: priceBody_def isDigit_def isSpace_def)
  have s: "priceSuffix (toUpperCase [])"
    by (simp add: priceSuffix_def upper_simps)
  have v: "denotedValue '' 2,000'' * multiplier (toUpperCase []) = 2000"
    by (simp add: denotedValue_def isDigit_def digitsVal_def digitVal_digits multiplier_def
        upper_simps)
  have l: "denotedValue '' 2,000'' * multiplier (toUpperCase []) < 2 ^ 53"
    unfolding v by simp
  have d: "detectedCurrency (toUpperCase ''usd'') = ''USD''"
    by (simp add: detectedCurrency_def usdTokens_def upper_simps)
  have u: "(2000::nat) * 625 < 2 ^ 53" and k: "(312500::nat) \<le> 10 ^ 12"
    by simp_all
  have f1: "\<lfloor>(of_nat 2000 :: rat) * (15625 / 100) + 1 / 2\<rfloor> = 312500"
    by (rule floor_unique) simp_all
  have f2: "\<lfloor>(of_nat 312500 :: rat) * (64 / 10000) * 100 + 1 / 2\<rfloor> = 200000"
    by (rule floor_unique) simp_all
  have td: "toDouble (of_nat 2000) = Fin (of_nat 2000)"
    by (rule toDouble_nat) simp
  from t have "(2000::nat) * 625 < 2 ^ 53
    \<longrightarrow> convertAmount ''USD'' ''KES'' (Fin (of_nat 2000))
        = Fin (of_int \<lfloor>(of_nat 2000 :: rat) * (15625 / 100) + 1 / 2\<rfloor>)"
    by (elim conjE)
  then have "convertAmount ''USD'' ''KES'' (Fin (of_nat 2000))
        = Fin (of_int \<lfloor>(of_nat 2000 :: rat) * (15625 / 100) + 1 / 2\<rfloor>)"
    using u by (rule mp)
  then have c1: "convertAmount ''USD'' ''KES'' (Fin 2000) = Fin 312500"
    unfolding f1 by simp
  from t have "(312500::nat) \<le> 10 ^ 12
    \<longrightarrow> convertAmount ''KES'' ''USD'' (Fin (of_nat 312500))
        = toDouble (of_int \<lfloor>(of_nat 312500 :: rat) * (64 / 10000) * 100 + 1 / 2\<rfloor> / 100)"
    by (elim conjE)
  then have "convertAmount ''KES'' ''USD'' (Fin (of_nat 312500))
        = toDouble (of_int \<lfloor>(of_nat 312500 :: rat) * (64 / 10000) * 100 + 1 / 2\<rfloor> / 100)"
    using k by (rule mp)
  then have c2: "convertAmount ''KES'' ''USD'' (Fin 312500) = Fin 2000"
    unfolding f2 using td by simp
  from t have "list_all isAscii (''usd'' @ '' 2,000'' @ [])
      \<and> toUpperCase ''usd'' \<in> set ([] # kesTokens @ usdTokens)
      \<and> priceBody '' 2,000'' \<and> priceSuffix (toUpperCase [])
      \<and> denotedValue '' 2,000'' * multiplier (toUpperCase []) < 2 ^ 53
    \<longrightarrow> amount (normalizePrice (\<lambda>n. []) (Str (''usd'' @ '' 2,000'' @ [])) ''KES'')
        = Some (convertAmount (detectedCurrency (toUpperCase ''usd'')) ''KES''
            (Fin (of_nat (denotedValue '' 2,000'' * multiplier (toUpperCase [])))))"
    by (rule conjunct1)
  then have "amount (normalizePrice (\<lambda>n. []) (Str (''usd'' @ '' 2,000'' @ [])) ''KES'')
        = Some (convertAmount (detectedCurrency (toUpperCase ''usd'')) ''KES''
            (Fin (of_nat (denotedValue '' 2,000'' * multiplier (toUpperCase [])))))"
    using a m b s l by (elim mp) (intro conjI)
  then have c3: "amount (normalizePrice (\<lambda>n. []) (Str ''usd 2,000'') ''KES'') = Some (Fin 312500)"
    unfolding v d using c1 by simp
  from c1 c2 c3 show ?thesis by (intro conjI)
qed

section \<open>Properties of the crawl state machine\<close>

lemma requestHandler_listings:
  "listings (requestHandler st m s rp) =
     (if label (fst rp) = DETAIL \<and> int (listingCount s) < m then listings s @ [detail (snd rp)]
      else listings s)"
  by (cases rp) (simp add: requestHandler_def Let_def)

lemma requestHandler_count:
  "listingCount (requestHandler st m s rp) =
     (if label (fst rp) = DETAIL \<and> int (listingCount s) < m then Suc (listingCount s)
      else listingCount s)"
  by (cases rp) (simp add: requestHandler_def Let_def)

lemma crawl_snoc: "crawl st m (rps @ [rp]) = requestHandler st m (crawl st m rps) rp"
  by (simp add: crawl_def)

lemma crawl_count_bounded:
  "0 \<le> m \<Longrightarrow> length (listings (crawl st m rps)) = listingCount (crawl st m rps)
     \<and> int (listingCount (crawl st m rps)) \<le> m"
proof (induction rps rule: rev_induct)
  case Nil
  then show ?case by (simp add: crawl_def newCrawler_def)
next
  case (snoc rp rps)
  then show ?case
    by (simp add: crawl_snoc requestHandler_listings requestHandler_count)
qed

text \<open>
  Claim C1. For either crawler (the statement holds for every site, so for
  \<open>buyrentkenya\<close> and \<open>jiji\<close>) and every sequence of LIST and DETAIL requests handled
  one after another from a fresh crawler, with a quota that is not negative: the
  result list is as long as the counter says and never longer than the quota; a
  DETAIL request handled when the counter has reached the quota changes nothing; and
  handling one more request only ever extends the result list, so the collected count
  never decreases.
\<close>

theorem crawler_quota:
  assumes "0 \<le> maxListings"
  shows "length (listings (crawl st maxListings rps)) = listingCount (crawl st maxListings rps)
    \<and> int (length (listings (crawl st maxListings rps))) \<le> maxListings
    \<and> (label (fst rp) = DETAIL \<and> maxListings \<le> int (listingCount (crawl st maxListings rps))
         \<longrightarrow> crawl st maxListings (rps @ [rp]) = crawl st maxListings rps)
    \<and> prefix (listings (crawl st maxListings rps)) (listings (crawl st maxListings (rps @ [rp])))
    \<and> listingCount (crawl st maxListings rps) \<le> listingCount (crawl st maxListings (rps @ [rp]))"
proof -
  have noop: "label (fst rp) = DETAIL \<and> maxListings \<le> int (listingCount (crawl st maxListings rps))
         \<longrightarrow> crawl st maxListings (rps @ [rp]) = crawl st maxListings rps"
    by (cases rp) (simp add: crawl_snoc requestHandler_def)
  show ?thesis
    using crawl_count_bounded [OF assms, of st rps] noop
    by (simp add: crawl_snoc requestHandler_listings requestHandler_count)
qed

theorem crawler_quota_witness:
  "(0::int) \<le> 1
   \<and> length (listings (crawl jiji 1
        [(\<lparr>url = ''a'', label = DETAIL\<rparr>, \<lparr>hrefs = [], next_links = [], detail = (1::nat)\<rparr>),
         (\<lparr>url = ''b'', label = DETAIL\<rparr>, \<lparr>hrefs = [], next_links = [], detail = 2\<rparr>)])) = 1
   \<and> crawl buyrentkenya 1
        ([(\<lparr>url = ''a'', label = DETAIL\<rparr>, \<lparr>hrefs = [], next_links = [], detail = (1::nat)\<rparr>)]
         @ [(\<lparr>url = ''b'', label = DETAIL\<rparr>, \<lparr>hrefs = [], next_links = [], detail = 2\<rparr>)])
      = crawl buyrentkenya 1
        [(\<lparr>url = ''a'', label = DETAIL\<rparr>, \<lparr>hrefs = [], next_links = [], detail = (1::nat)\<rparr>)]"
  using crawler_quota [of 1 jiji
      "[(\<lparr>url = ''a'', label = DETAIL\<rparr>, \<lparr>hrefs = [], next_links = [], detail = (1::nat)\<rparr>),
        (\<lparr>url = ''b'', label = DETAIL\<rparr>, \<lparr>hrefs = [], next_links = [], detail = 2\<rparr>)]"]
    crawler_quota [of 1 buyrentkenya
      "[(\<lparr>url = ''a'', label = DETAIL\<rparr>, \<lparr>hrefs = [], next_links = [], detail = (1::nat)\<rparr>)]"
      "(\<lparr>url = ''b'', label = DETAIL\<rparr>, \<lparr>hrefs = [], next_links = [], detail = 2\<rparr>)"]
  by (simp add: crawl_def requestHandler_def newCrawler_def)

text \<open>
  Claim C7 says that the detail links enqueued from one LIST page are deduplicated
  within the page. The handler tests membership with the \<^verbatim>\<open>href\<close> as the page writes
  it but stores the absolute URL, so a relative link that occurs twice, or once after
  its absolute form, is enqueued twice. The theorem evaluates both handlers on such a
  page.
\<close>

theorem list_page_duplicate_links:
  "queue (requestHandler buyrentkenya 10 newCrawler
     (\<lparr>url = ''https://www.buyrentkenya.com/property'', label = LIST\<rparr>,
      \<lparr>hrefs = [Some ''/property/1'', Some ''/property/1''], next_links = [], detail = ()\<rparr>))
   = [\<lparr>url = ''https://www.buyrentkenya.com/property/1'', label = DETAIL\<rparr>,
      \<lparr>url = ''https://www.buyrentkenya.com/property/1'', label = DETAIL\<rparr>]
   \<and> queue (requestHandler jiji 10 newCrawler
     (\<lparr>url = ''https://jiji.co.ke/real-estate'', label = LIST\<rparr>,
      \<lparr>hrefs = [Some ''https://jiji.co.ke/item/1'', Some ''/item/1''], next_links = [],
       detail = ()\<rparr>))
   = [\<lparr>url = ''https://jiji.co.ke/item/1'', label = DETAIL\<rparr>,
      \<lparr>url = ''https://jiji.co.ke/item/1'', label = DETAIL\<rparr>]"
  by (simp add: requestHandler_def newCrawler_def collectLinks_def addLink_def
      buyrentkenya_def jiji_def)

section \<open>Properties of the orchestrator\<close>

text \<open>
  Claim C9 says that a source name with no registered crawler contributes no listing
  and does not abort the run. For the name \<^verbatim>\<open>constructor\<close> the lookup in the object
  literal finds an inherited property, the guard for unknown sources does not fire,
  and the run ends in a TypeError: the listings already collected from \<^verbatim>\<open>jiji\<close> are
  not saved and the summary reports failure.
\<close>

theorem main_inherited_source_name:
  "main 100
     [(''jiji'', [(\<lparr>url = ''https://jiji.co.ke/item/1'', label = DETAIL\<rparr>,
                  \<lparr>hrefs = [], next_links = [], detail = (1::nat)\<rparr>)]),
      (''constructor'', [])]
   = \<lparr>success = False, totalListings = None, dataset = []\<rparr>"
  by (simp add: main_def CRAWLERS_def toLowerCase_def toLowerChar_def upper_letters_def
      lower_letters_def)

end
